theory Spec2Isabelle
  imports Main
begin

section \<open>Data model of \<^verbatim>\<open>aplus/__init__.py\<close>\<close>

text \<open>
  Python objects live in a store and are referred to by address.  Three kinds of
  objects matter to the module: instances of \<^verbatim>\<open>Promise\<close>, instances of
  \<^verbatim>\<open>CountdownLatch\<close>, and foreign objects (anything that is not a
  \<^verbatim>\<open>Promise\<close> but may carry a callable \<^verbatim>\<open>done\<close> or \<^verbatim>\<open>then\<close> attribute).
  Threads and locks are not modelled: every operation runs to completion before the
  next one starts.
\<close>

type_synonym addr = nat

text \<open>Exceptions (all of them subclasses of \<^verbatim>\<open>Exception\<close>).\<close>

datatype exc =
    TypeError string
  | AssertionError
  | AttributeError string
  | UserError nat

text \<open>
  Values and callables.  The callables are the closures the module itself builds
  (bound methods \<^verbatim>\<open>p.fulfill\<close> and \<^verbatim>\<open>p.reject\<close>, the two closures of
  \<^verbatim>\<open>then\<close>, the closure \<^verbatim>\<open>handleSuccess\<close> of \<^verbatim>\<open>listPromise\<close>) and
  functions supplied by the user, which are named by a number and interpreted by an
  environment.
\<close>

datatype val =
    VNone
  | VInt int
  | VList "val list"
  | VExc exc
  | VPromise addr
  | VForeign addr
  | VFun fn
and fn =
    UserFn nat
  | Fulfill addr
  | Reject addr
  | CallAndFulfill addr val
  | CallAndReject addr val
  | HandleSuccess addr "val list" addr

text \<open>A user function returns a value or raises; it has no access to the store.\<close>

type_synonym fenv = "nat \<Rightarrow> val \<Rightarrow> exc + val"

datatype pstate = PENDING | REJECTED | FULFILLED

text \<open>
  The fields of a \<^verbatim>\<open>Promise\<close>: \<^verbatim>\<open>_state\<close>, \<^verbatim>\<open>value\<close>, \<^verbatim>\<open>reason\<close>,
  \<^verbatim>\<open>_callbacks\<close>, \<^verbatim>\<open>_errbacks\<close>.  The two lists are \<^verbatim>\<open>None\<close> after
  settlement.
\<close>

record promise =
  p_state :: pstate
  p_value :: val
  p_reason :: val
  p_callbacks :: "fn list option"
  p_errbacks :: "fn list option"

text \<open>
  A foreign object: whether it has a callable \<^verbatim>\<open>done\<close>, a callable \<^verbatim>\<open>then\<close>,
  what a call of either raises (if anything), and the pairs of reactions it has been
  handed so far.  It has no other attributes.
\<close>

record foreign =
  f_done :: bool
  f_then :: bool
  f_raises :: "exc option"
  f_registered :: "(val \<times> val) list"

record heap =
  promises :: "addr \<Rightarrow> promise"
  next_promise :: addr
  latches :: "addr \<Rightarrow> int"
  next_latch :: addr
  foreigns :: "addr \<Rightarrow> foreign"

text \<open>
  An operation returns the store it leaves behind together with either the raised
  exception or the returned value; \<open>None\<close> means that the fuel bounding the depth of
  nested calls ran out.
\<close>

type_synonym 'a res = "(heap \<times> (exc + 'a)) option"

definition returns :: "heap \<Rightarrow> 'a \<Rightarrow> 'a res" where
  "returns h x = Some (h, Inr x)"

definition raises :: "heap \<Rightarrow> exc \<Rightarrow> 'a res" where
  "raises h e = Some (h, Inl e)"

text \<open>Sequencing: an exception of the first part skips the second.\<close>

definition bind_res :: "'a res \<Rightarrow> (heap \<Rightarrow> 'a \<Rightarrow> 'b res) \<Rightarrow> 'b res" where
  "bind_res m k =
     (case m of
        None \<Rightarrow> None
      | Some (h, Inl e) \<Rightarrow> Some (h, Inl e)
      | Some (h, Inr x) \<Rightarrow> k h x)"

text \<open>\<^verbatim>\<open>try: m  except Exception as e: handler(e)\<close>\<close>

definition try_except :: "'a res \<Rightarrow> (heap \<Rightarrow> exc \<Rightarrow> 'a res) \<Rightarrow> 'a res" where
  "try_except m handler =
     (case m of
        None \<Rightarrow> None
      | Some (h, Inl e) \<Rightarrow> handler h e
      | Some (h, Inr x) \<Rightarrow> Some (h, Inr x))"

subsection \<open>Object construction and field access\<close>

definition fresh_promise :: promise where
  "fresh_promise =
     \<lparr>p_state = PENDING, p_value = VNone, p_reason = VNone,
      p_callbacks = Some [], p_errbacks = Some []\<rparr>"

text \<open>\<^verbatim>\<open>Promise()\<close>: a new pending promise at the next free address.\<close>

definition new_promise :: "heap \<Rightarrow> heap \<times> addr" where
  "new_promise h =
     (h\<lparr>promises := (promises h)(next_promise h := fresh_promise),
        next_promise := Suc (next_promise h)\<rparr>,
      next_promise h)"

definition upd_promise :: "heap \<Rightarrow> addr \<Rightarrow> (promise \<Rightarrow> promise) \<Rightarrow> heap" where
  "upd_promise h a f = h\<lparr>promises := (promises h)(a := f (promises h a))\<rparr>"

text \<open>\<^verbatim>\<open>CountdownLatch(count)\<close>\<close>

definition new_latch :: "heap \<Rightarrow> int \<Rightarrow> (heap \<times> (exc + addr))" where
  "new_latch h count =
     (if count \<ge> 0
      then (h\<lparr>latches := (latches h)(next_latch h := count),
              next_latch := Suc (next_latch h)\<rparr>, Inr (next_latch h))
      else (h, Inl AssertionError))"

text \<open>\<^verbatim>\<open>CountdownLatch.dec\<close>\<close>

definition dec :: "heap \<Rightarrow> addr \<Rightarrow> (heap \<times> (exc + int))" where
  "dec h c =
     (if latches h c > 0
      then (h\<lparr>latches := (latches h)(c := latches h c - 1)\<rparr>, Inr (latches h c - 1))
      else (h, Inl AssertionError))"

subsection \<open>The duck-typing helpers\<close>

text \<open>\<^verbatim>\<open>_isFunction\<close>: not \<^verbatim>\<open>None\<close> and callable.\<close>

fun isFunction :: "val \<Rightarrow> bool" where
  "isFunction (VFun f) = True"
| "isFunction v = False"

text \<open>\<^verbatim>\<open>hasattr(obj, "done") and _isFunction(getattr(obj, "done"))\<close>\<close>

fun has_done :: "heap \<Rightarrow> val \<Rightarrow> bool" where
  "has_done h (VPromise a) = True"
| "has_done h (VForeign a) = f_done (foreigns h a)"
| "has_done h v = False"

text \<open>\<^verbatim>\<open>hasattr(obj, "then") and _isFunction(getattr(obj, "then"))\<close>\<close>

fun has_then :: "heap \<Rightarrow> val \<Rightarrow> bool" where
  "has_then h (VPromise a) = True"
| "has_then h (VForeign a) = f_then (foreigns h a)"
| "has_then h v = False"

fun isinstance_Promise :: "val \<Rightarrow> bool" where
  "isinstance_Promise (VPromise a) = True"
| "isinstance_Promise v = False"

text \<open>\<^verbatim>\<open>_isPromise\<close>\<close>

definition isPromise :: "heap \<Rightarrow> val \<Rightarrow> bool" where
  "isPromise h obj \<longleftrightarrow> isinstance_Promise obj \<or> has_done h obj \<or> has_then h obj"

text \<open>
  Calling \<^verbatim>\<open>done\<close> or \<^verbatim>\<open>then\<close> of a foreign object: it raises, or it records
  the pair of reactions for a later settlement by its owner.
\<close>

definition foreign_register :: "heap \<Rightarrow> addr \<Rightarrow> val \<Rightarrow> val \<Rightarrow> unit res" where
  "foreign_register h a f g =
     (case f_raises (foreigns h a) of
        Some e \<Rightarrow> raises h e
      | None \<Rightarrow>
          returns (h\<lparr>foreigns := (foreigns h)
                      (a := (foreigns h a)\<lparr>f_registered := f_registered (foreigns h a) @ [(f, g)]\<rparr>)\<rparr>) ())"

text \<open>\<^verbatim>\<open>_promisify\<close>\<close>

definition promisify :: "heap \<Rightarrow> val \<Rightarrow> addr res" where
  "promisify h obj =
     (case obj of
        VPromise a \<Rightarrow> returns h a
      | VForeign a \<Rightarrow>
          if has_done h obj then
            (case new_promise h of (h1, p) \<Rightarrow>
               bind_res (foreign_register h1 a (VFun (Fulfill p)) (VFun (Reject p)))
                 (\<lambda>h2 _. returns h2 p))
          else if has_then h obj then
            (case new_promise h of (h1, p) \<Rightarrow>
               bind_res (foreign_register h1 a (VFun (Fulfill p)) (VFun (Reject p)))
                 (\<lambda>h2 _. returns h2 p))
          else raises h (TypeError ''Object is not a Promise like object.'')
      | _ \<Rightarrow> raises h (TypeError ''Object is not a Promise like object.''))"

text \<open>
  The attribute read \<^verbatim>\<open>p.value\<close>: defined on a \<^verbatim>\<open>Promise\<close>, an
  \<^verbatim>\<open>AttributeError\<close> (here \<open>None\<close>) on anything else.
\<close>

fun attr_value :: "heap \<Rightarrow> val \<Rightarrow> val option" where
  "attr_value h (VPromise a) = Some (p_value (promises h a))"
| "attr_value h v = None"

subsection \<open>The methods of \<^verbatim>\<open>Promise\<close>\<close>

text \<open>
  The loop \<^verbatim>\<open>for callback in callbacks: try: callback(value) except Exception: pass\<close>
  of \<^verbatim>\<open>_fulfill\<close> and \<^verbatim>\<open>reject\<close>: each reaction is called in turn, and
  whatever it returns or raises is dropped.
\<close>

fun run_callbacks :: "(heap \<Rightarrow> fn \<Rightarrow> val \<Rightarrow> val res) \<Rightarrow> heap \<Rightarrow> fn list \<Rightarrow> val \<Rightarrow> val res" where
  "run_callbacks call h [] v = returns h VNone"
| "run_callbacks call h (c # cs) v =
     (case call h c v of
        None \<Rightarrow> None
      | Some (h1, _) \<Rightarrow> run_callbacks call h1 cs v)"

text \<open>
  The methods call each other and the stored reactions.  The only way back into a
  method from below is the call \<^verbatim>\<open>f(v)\<close> of a callable, so every method takes
  that call as its first argument \<open>call\<close>, and \<open>call_fn\<close> below ties the knot.
  \<open>fulfill'\<close> is \<^verbatim>\<open>_fulfill\<close>, \<open>done'\<close> is \<^verbatim>\<open>done\<close>, \<open>then'\<close> is
  \<^verbatim>\<open>then\<close>.
\<close>

type_synonym caller = "heap \<Rightarrow> fn \<Rightarrow> val \<Rightarrow> val res"

definition fulfill' :: "caller \<Rightarrow> heap \<Rightarrow> addr \<Rightarrow> val \<Rightarrow> val res" where
  "fulfill' call h self v =
     (if p_state (promises h self) \<noteq> PENDING then raises h AssertionError
      else
        let callbacks = p_callbacks (promises h self);
            h1 = upd_promise h self
                   (\<lambda>p. p\<lparr>p_value := v, p_state := FULFILLED, p_callbacks := None\<rparr>)
        in case callbacks of
             None \<Rightarrow> raises h1 (TypeError ''NoneType object is not iterable'')
           | Some cbs \<Rightarrow> run_callbacks call h1 cbs v)"

definition reject :: "caller \<Rightarrow> heap \<Rightarrow> addr \<Rightarrow> val \<Rightarrow> val res" where
  "reject call h self r =
     (if p_state (promises h self) \<noteq> PENDING then raises h AssertionError
      else
        let errbacks = p_errbacks (promises h self);
            h1 = upd_promise h self
                   (\<lambda>p. p\<lparr>p_reason := r, p_state := REJECTED, p_errbacks := None\<rparr>)
        in case errbacks of
             None \<Rightarrow> raises h1 (TypeError ''NoneType object is not iterable'')
           | Some ebs \<Rightarrow> run_callbacks call h1 ebs r)"

definition addCallback :: "caller \<Rightarrow> heap \<Rightarrow> addr \<Rightarrow> val \<Rightarrow> val res" where
  "addCallback call h self f =
     (case f of
        VFun g \<Rightarrow>
          if p_state (promises h self) = PENDING then
            (case p_callbacks (promises h self) of
               None \<Rightarrow> raises h (AttributeError ''append'')
             | Some cbs \<Rightarrow>
                 returns (upd_promise h self (\<lambda>p. p\<lparr>p_callbacks := Some (cbs @ [g])\<rparr>)) VNone)
          else if p_state (promises h self) = FULFILLED then
            bind_res (call h g (p_value (promises h self))) (\<lambda>h1 _. returns h1 VNone)
          else returns h VNone
      | _ \<Rightarrow> raises h AssertionError)"

definition addErrback :: "caller \<Rightarrow> heap \<Rightarrow> addr \<Rightarrow> val \<Rightarrow> val res" where
  "addErrback call h self f =
     (case f of
        VFun g \<Rightarrow>
          if p_state (promises h self) = PENDING then
            (case p_errbacks (promises h self) of
               None \<Rightarrow> raises h (AttributeError ''append'')
             | Some ebs \<Rightarrow>
                 returns (upd_promise h self (\<lambda>p. p\<lparr>p_errbacks := Some (ebs @ [g])\<rparr>)) VNone)
          else if p_state (promises h self) = REJECTED then
            bind_res (call h g (p_reason (promises h self))) (\<lambda>h1 _. returns h1 VNone)
          else returns h VNone
      | _ \<Rightarrow> raises h AssertionError)"

definition done' :: "caller \<Rightarrow> heap \<Rightarrow> addr \<Rightarrow> val \<Rightarrow> val \<Rightarrow> val res" where
  "done' call h self success failure =
     bind_res (if success \<noteq> VNone then addCallback call h self success else returns h VNone)
       (\<lambda>h1 _. if failure \<noteq> VNone then addErrback call h1 self failure else returns h1 VNone)"

definition then' :: "caller \<Rightarrow> heap \<Rightarrow> addr \<Rightarrow> val \<Rightarrow> val \<Rightarrow> addr res" where
  "then' call h self success failure =
     (case new_promise h of (h1, ret) \<Rightarrow>
        bind_res (done' call h1 self (VFun (CallAndFulfill ret success))
                                     (VFun (CallAndReject ret failure)))
          (\<lambda>h2 _. returns h2 ret))"

definition fulfill :: "caller \<Rightarrow> heap \<Rightarrow> addr \<Rightarrow> val \<Rightarrow> val res" where
  "fulfill call h self x =
     (if x = VPromise self then
        raises h (TypeError ''Cannot resolve promise with itself.'')
      else if isPromise h x then
        try_except
          (bind_res (promisify h x)
             (\<lambda>h1 q. done' call h1 q (VFun (Fulfill self)) (VFun (Reject self))))
          (\<lambda>h2 e. reject call h2 self (VExc e))
      else if has_then h x then
        try_except
          (case x of
             VPromise q \<Rightarrow>
               bind_res (then' call h q (VFun (Fulfill self)) (VFun (Reject self)))
                 (\<lambda>h1 _. returns h1 VNone)
           | VForeign a \<Rightarrow>
               bind_res (foreign_register h a (VFun (Fulfill self)) (VFun (Reject self)))
                 (\<lambda>h1 _. returns h1 VNone)
           | _ \<Rightarrow> raises h (AttributeError ''then''))
          (\<lambda>h2 e. reject call h2 self (VExc e))
      else fulfill' call h self x)"

text \<open>The closures \<^verbatim>\<open>callAndFulfill\<close> and \<^verbatim>\<open>callAndReject\<close> of \<^verbatim>\<open>then\<close>.\<close>

definition callAndFulfill :: "caller \<Rightarrow> heap \<Rightarrow> addr \<Rightarrow> val \<Rightarrow> val \<Rightarrow> val res" where
  "callAndFulfill call h ret success v =
     try_except
       (case success of
          VFun f \<Rightarrow> bind_res (call h f v) (\<lambda>h1 w. fulfill call h1 ret w)
        | _ \<Rightarrow> fulfill call h ret v)
       (\<lambda>h2 e. reject call h2 ret (VExc e))"

definition callAndReject :: "caller \<Rightarrow> heap \<Rightarrow> addr \<Rightarrow> val \<Rightarrow> val \<Rightarrow> val res" where
  "callAndReject call h ret failure r =
     try_except
       (case failure of
          VFun f \<Rightarrow> bind_res (call h f r) (\<lambda>h1 w. fulfill call h1 ret w)
        | _ \<Rightarrow> reject call h ret r)
       (\<lambda>h2 e. reject call h2 ret (VExc e))"

text \<open>The closure \<^verbatim>\<open>handleSuccess\<close> of \<^verbatim>\<open>listPromise\<close>.\<close>

definition handleSuccess :: "caller \<Rightarrow> heap \<Rightarrow> addr \<Rightarrow> val list \<Rightarrow> addr \<Rightarrow> val \<Rightarrow> val res" where
  "handleSuccess call h counter ps ret v =
     (case dec h counter of
        (h1, Inl e) \<Rightarrow> raises h1 e
      | (h1, Inr c) \<Rightarrow>
          if c = 0 then
            (case those (map (attr_value h1) ps) of
               None \<Rightarrow> raises h1 (AttributeError ''value'')
             | Some vs \<Rightarrow> fulfill call h1 ret (VList vs))
          else returns h1 VNone)"

text \<open>
  The call \<^verbatim>\<open>f(v)\<close>.  The first argument bounds the depth of nested calls of
  callables; \<open>None\<close> is returned when it is used up.
\<close>

primrec call_fn :: "nat \<Rightarrow> fenv \<Rightarrow> heap \<Rightarrow> fn \<Rightarrow> val \<Rightarrow> val res" where
  "call_fn 0 E = (\<lambda>h f v. None)"
| "call_fn (Suc n) E = (\<lambda>h f v.
     (case f of
        UserFn i \<Rightarrow> Some (h, E i v)
      | Fulfill a \<Rightarrow> fulfill (call_fn n E) h a v
      | Reject a \<Rightarrow> reject (call_fn n E) h a v
      | CallAndFulfill ret success \<Rightarrow> callAndFulfill (call_fn n E) h ret success v
      | CallAndReject ret failure \<Rightarrow> callAndReject (call_fn n E) h ret failure v
      | HandleSuccess counter ps ret \<Rightarrow> handleSuccess (call_fn n E) h counter ps ret v))"

subsection \<open>The constructors and the sequence combinator\<close>

text \<open>\<^verbatim>\<open>Promise.value(x)\<close> and \<^verbatim>\<open>Promise.rejection(reason)\<close>\<close>

definition Promise_value :: "caller \<Rightarrow> heap \<Rightarrow> val \<Rightarrow> addr res" where
  "Promise_value call h x =
     (case new_promise h of (h1, p) \<Rightarrow>
        bind_res (fulfill call h1 p x) (\<lambda>h2 _. returns h2 p))"

definition Promise_rejection :: "caller \<Rightarrow> heap \<Rightarrow> val \<Rightarrow> addr res" where
  "Promise_rejection call h r =
     (case new_promise h of (h1, p) \<Rightarrow>
        bind_res (reject call h1 p r) (\<lambda>h2 _. returns h2 p))"

text \<open>
  The loop of \<^verbatim>\<open>listPromise\<close>:
  \<^verbatim>\<open>for p in promises: assert _isPromise(p); _promisify(p).done(handleSuccess, ret.reject)\<close>.
  \<open>all\<close> is the whole sequence, which \<^verbatim>\<open>handleSuccess\<close> closes over.
\<close>

fun listPromise_loop ::
  "caller \<Rightarrow> heap \<Rightarrow> addr \<Rightarrow> val list \<Rightarrow> addr \<Rightarrow> val list \<Rightarrow> val res" where
  "listPromise_loop call h counter all ret [] = returns h VNone"
| "listPromise_loop call h counter all ret (p # ps) =
     (if \<not> isPromise h p then raises h AssertionError
      else
        bind_res
          (bind_res (promisify h p)
             (\<lambda>h1 q. done' call h1 q (VFun (HandleSuccess counter all ret)) (VFun (Reject ret))))
          (\<lambda>h2 _. listPromise_loop call h2 counter all ret ps))"

text \<open>\<^verbatim>\<open>listPromise(*promises)\<close>: the argument is the tuple of positional arguments.\<close>

definition listPromise :: "caller \<Rightarrow> heap \<Rightarrow> val list \<Rightarrow> addr res" where
  "listPromise call h args =
     (if length args = 0 then Promise_value call h (VList [])
      else
        let ps = (case args of [VList xs] \<Rightarrow> xs | _ \<Rightarrow> args)
        in case new_promise h of (h1, ret) \<Rightarrow>
             (case new_latch h1 (int (length ps)) of
                (h2, Inl e) \<Rightarrow> raises h2 e
              | (h2, Inr counter) \<Rightarrow>
                  bind_res (listPromise_loop call h2 counter ps ret ps)
                    (\<lambda>h3 _. returns h3 ret)))"

section \<open>Well-formed stores\<close>

text \<open>
  The reactions stored in a promise may settle other promises, whose reactions run in
  turn.  To say which promises a call can reach, and how deep the calls nest, every
  callable gets the set of promises it may settle and the nesting depth of the
  handlers it closes over.
\<close>

fun targets :: "fn \<Rightarrow> addr set" and targets_val :: "val \<Rightarrow> addr set" where
  "targets (UserFn i) = {}"
| "targets (Fulfill a) = {a}"
| "targets (Reject a) = {a}"
| "targets (CallAndFulfill ret s) = insert ret (targets_val s)"
| "targets (CallAndReject ret s) = insert ret (targets_val s)"
| "targets (HandleSuccess c ps ret) = {ret}"
| "targets_val (VFun f) = targets f"
| "targets_val v = {}"

fun depth :: "fn \<Rightarrow> nat" and depth_val :: "val \<Rightarrow> nat" where
  "depth (UserFn i) = 1"
| "depth (Fulfill a) = 1"
| "depth (Reject a) = 1"
| "depth (CallAndFulfill ret s) = 2 + depth_val s"
| "depth (CallAndReject ret s) = 2 + depth_val s"
| "depth (HandleSuccess c ps ret) = 1"
| "depth_val (VFun f) = depth f"
| "depth_val v = 0"

definition fn_ok :: "addr set \<Rightarrow> nat \<Rightarrow> fn \<Rightarrow> bool" where
  "fn_ok T D f \<longleftrightarrow> targets f \<subseteq> T \<and> depth f \<le> D"

text \<open>The settlement of a promise: its state, value and reason.\<close>

definition core :: "promise \<Rightarrow> pstate \<times> val \<times> val" where
  "core p = (p_state p, p_value p, p_reason p)"

definition same_flags :: "heap \<Rightarrow> heap \<Rightarrow> bool" where
  "same_flags h h' \<longleftrightarrow>
     (\<forall>a. f_done (foreigns h' a) = f_done (foreigns h a) \<and>
          f_then (foreigns h' a) = f_then (foreigns h a))"

text \<open>
  What a run that reaches only the promises in \<open>T\<close> may do to a store: it may
  allocate, and it leaves alone the settlement of every allocated promise that is
  already settled or lies outside \<open>T\<close>.
\<close>

definition step :: "addr set \<Rightarrow> heap \<Rightarrow> heap \<Rightarrow> bool" where
  "step T h h' \<longleftrightarrow>
     next_promise h \<le> next_promise h' \<and> same_flags h h' \<and>
     (\<forall>a < next_promise h. p_state (promises h a) \<noteq> PENDING \<or> a \<notin> T
        \<longrightarrow> core (promises h' a) = core (promises h a))"

text \<open>
  A pending promise has both reaction lists, and its reactions settle promises of
  \<open>T\<close> only and nest at most \<open>D\<close> deep.
\<close>

definition lists_ok :: "addr set \<Rightarrow> nat \<Rightarrow> promise \<Rightarrow> bool" where
  "lists_ok T D p \<longleftrightarrow>
     (p_state p = PENDING \<longrightarrow>
        (\<exists>cbs ebs. p_callbacks p = Some cbs \<and> p_errbacks p = Some ebs \<and>
                   list_all (fn_ok T D) cbs \<and> list_all (fn_ok T D) ebs))"

text \<open>The value of a fulfilled promise is never a thenable.\<close>

definition value_ok :: "heap \<Rightarrow> promise \<Rightarrow> bool" where
  "value_ok h p \<longleftrightarrow> (p_state p = FULFILLED \<longrightarrow> \<not> isPromise h (p_value p))"

text \<open>
  A store is well formed for \<open>T\<close> and \<open>D\<close> when \<open>T\<close> is a finite set of
  allocated promises and every allocated promise satisfies the two conditions above.
  Calling a reaction whose targets lie in \<open>T\<close> preserves well-formedness for
  \<open>T\<close> and \<open>D\<close> (\<open>sound_call_fn\<close> below); the example stores of this
  theory are well formed.
\<close>

definition wf_heap :: "addr set \<Rightarrow> nat \<Rightarrow> heap \<Rightarrow> bool" where
  "wf_heap T D h \<longleftrightarrow>
     finite T \<and> (\<forall>a\<in>T. a < next_promise h) \<and> 1 \<le> D \<and>
     (\<forall>a < next_promise h. lists_ok T D (promises h a)) \<and>
     (\<forall>a. value_ok h (promises h a))"

text \<open>A result that, if there is one, leaves a well-formed store reached by a \<open>T\<close>-run.\<close>

definition ok_res :: "addr set \<Rightarrow> nat \<Rightarrow> heap \<Rightarrow> 'a res \<Rightarrow> bool" where
  "ok_res T D h m \<longleftrightarrow> (\<forall>h' r. m = Some (h', r) \<longrightarrow> wf_heap T D h' \<and> step T h h')"

definition sound :: "addr set \<Rightarrow> nat \<Rightarrow> caller \<Rightarrow> bool" where
  "sound T D call \<longleftrightarrow>
     (\<forall>h f v. wf_heap T D h \<and> targets f \<subseteq> T \<longrightarrow> ok_res T D h (call h f v))"

text \<open>
  The number of pending promises of \<open>T\<close> bounds the depth of nested calls: between
  two nested calls of callables either a pending promise of \<open>T\<close> is settled or a
  handler closure is entered.  \<open>extra\<close> accounts for the one additional call made
  when a thenable that is already settled is adopted.
\<close>

definition mu :: "addr set \<Rightarrow> heap \<Rightarrow> nat" where
  "mu T h = card {a \<in> T. p_state (promises h a) = PENDING}"

fun extra :: "heap \<Rightarrow> fn \<Rightarrow> val \<Rightarrow> nat" where
  "extra h (UserFn i) v = 0"
| "extra h (Reject a) v = 0"
| "extra h f v = (if isPromise h v then 1 else 0)"

definition total :: "addr set \<Rightarrow> nat \<Rightarrow> nat \<Rightarrow> caller \<Rightarrow> bool" where
  "total T D b call \<longleftrightarrow>
     (\<forall>h f v. wf_heap T D h \<and> targets f \<subseteq> T \<and> depth f + extra h f v + mu T h * (D + 2) \<le> b
        \<longrightarrow> call h f v \<noteq> None)"

subsection \<open>Concrete stores and environments used in the examples\<close>

text \<open>The store of a program that has not created any object yet.\<close>

definition empty_heap :: heap where
  "empty_heap =
     \<lparr>promises = (\<lambda>_. fresh_promise), next_promise = 0,
      latches = (\<lambda>_. 0), next_latch = 0,
      foreigns = (\<lambda>_. \<lparr>f_done = False, f_then = False, f_raises = None, f_registered = []\<rparr>)\<rparr>"

text \<open>
  User functions of the examples: number 0 raises \<open>UserError 7\<close>, number 1 returns
  \<open>VInt 42\<close>, every other one returns its argument.
\<close>

definition ex_env :: fenv where
  "ex_env i v = (if i = 0 then Inl (UserError 7) else if i = 1 then Inr (VInt 42) else Inr v)"

text \<open>What an operation left behind, for reading off single promises.\<close>

definition heap_of :: "'a res \<Rightarrow> heap" where
  "heap_of r = (case r of Some (h, _) \<Rightarrow> h | None \<Rightarrow> empty_heap)"

definition outcome_of :: "'a res \<Rightarrow> (exc + 'a) option" where
  "outcome_of r = map_option snd r"

text \<open>Stores reached through the interface: one and two pending promises.\<close>

definition one_pending :: heap where
  "one_pending = fst (new_promise empty_heap)"

definition two_pending :: heap where
  "two_pending = fst (new_promise one_pending)"

text \<open>Promise 0 fulfilled with \<open>VInt 1\<close> by a call of \<^verbatim>\<open>fulfill\<close>, promise 1 pending.\<close>

definition fulfilled_and_pending :: heap where
  "fulfilled_and_pending = heap_of (fulfill (call_fn 0 ex_env) two_pending 0 (VInt 1))"

text \<open>\<^verbatim>\<open>Promise.rejection(1)\<close> followed by \<^verbatim>\<open>Promise.rejection(2)\<close>.\<close>

definition two_rejected :: heap where
  "two_rejected =
     heap_of (Promise_rejection (call_fn 0 ex_env)
       (heap_of (Promise_rejection (call_fn 0 ex_env) empty_heap (VInt 1))) (VInt 2))"

text \<open>Promise 0 pending, promise 1 fulfilled with, respectively rejected with, \<open>VInt 1\<close>.\<close>

definition pending_and_fulfilled :: heap where
  "pending_and_fulfilled = heap_of (fulfill (call_fn 0 ex_env) two_pending 1 (VInt 1))"

definition pending_and_rejected :: heap where
  "pending_and_rejected = heap_of (reject (call_fn 0 ex_env) two_pending 1 (VInt 1))"

text \<open>Two pending promises and a foreign object 0 that has a callable \<^verbatim>\<open>then\<close>.\<close>

definition with_foreign :: heap where
  "with_foreign =
     two_pending\<lparr>foreigns := (foreigns two_pending)
       (0 := \<lparr>f_done = False, f_then = True, f_raises = None, f_registered = []\<rparr>)\<rparr>"

definition three_pending :: heap where
  "three_pending = fst (new_promise two_pending)"

text \<open>
  The chain \<^verbatim>\<open>p0.fulfill(p1); p1.fulfill(p2); p2.fulfill(9)\<close> on three pending
  promises.
\<close>

definition chain_of_three :: heap where
  "chain_of_three =
     heap_of (fulfill (call_fn 4 ex_env)
       (heap_of (fulfill (call_fn 4 ex_env)
          (heap_of (fulfill (call_fn 4 ex_env) three_pending 0 (VPromise 1)))
          1 (VPromise 2)))
       2 (VInt 9))"

text \<open>A client that fulfils the given promises with the given values, in the given order.\<close>

fun fulfill_all :: "caller \<Rightarrow> heap \<Rightarrow> (addr \<times> val) list \<Rightarrow> val res" where
  "fulfill_all call h [] = returns h VNone"
| "fulfill_all call h ((p, v) # rest) =
     bind_res (fulfill call h p v) (\<lambda>h1 _. fulfill_all call h1 rest)"

fun is_user :: "fn \<Rightarrow> bool" where
  "is_user (UserFn i) = True"
| "is_user f = False"

text \<open>
  The state of a sequence combinator over the promises \<open>ps\<close> with latch \<open>cnt\<close> and
  result \<open>ret\<close> while the inputs in \<open>S\<close> are still awaited: the latch counts them,
  each of them is pending and carries the reaction of the combinator after reactions
  of the user, the other inputs are fulfilled with the values \<open>vals\<close>, and the result
  is pending.
\<close>

definition awaiting :: "heap \<Rightarrow> addr \<Rightarrow> addr list \<Rightarrow> addr \<Rightarrow> addr set \<Rightarrow> (addr \<Rightarrow> val) \<Rightarrow> bool" where
  "awaiting h cnt ps ret S vals \<longleftrightarrow>
     latches h cnt = int (card S) \<and> finite S \<and> S \<subseteq> set ps \<and> ret \<notin> set ps \<and>
     p_state (promises h ret) = PENDING \<and> p_callbacks (promises h ret) = Some [] \<and>
     (\<forall>q\<in>S. p_state (promises h q) = PENDING \<and>
        (\<exists>us. p_callbacks (promises h q) = Some (us @ [HandleSuccess cnt (map VPromise ps) ret]) \<and>
              list_all is_user us)) \<and>
     (\<forall>q\<in>set ps - S. p_state (promises h q) = FULFILLED \<and> p_value (promises h q) = vals q)"

text \<open>Three promises already fulfilled with 1, 2 and 3.\<close>

definition three_fulfilled :: heap where
  "three_fulfilled =
     heap_of (Promise_value (call_fn 0 ex_env)
       (heap_of (Promise_value (call_fn 0 ex_env)
          (heap_of (Promise_value (call_fn 0 ex_env) empty_heap (VInt 1)))
          (VInt 2)))
       (VInt 3))"


section \<open>Properties\<close>

lemmas method_defs =
  fulfill_def fulfill'_def reject_def addCallback_def addErrback_def done'_def then'_def
  callAndFulfill_def callAndReject_def handleSuccess_def Promise_value_def
  Promise_rejection_def listPromise_def

lemmas aux_defs =
  returns_def raises_def bind_res_def try_except_def new_promise_def upd_promise_def
  fresh_promise_def isPromise_def promisify_def foreign_register_def new_latch_def dec_def

lemmas example_defs =
  heap_of_def outcome_of_def empty_heap_def ex_env_def one_pending_def two_pending_def
  fulfilled_and_pending_def two_rejected_def

subsection \<open>Invariants of the methods\<close>

text \<open>
  The lemmas of this subsection show, for every method and for \<open>call_fn\<close> with any
  amount of fuel, that a run started in a well-formed store ends in a well-formed
  store reached by a \<open>T\<close>-run (\<open>sound_call_fn\<close>), and that it does end when the
  fuel exceeds a bound computed from the store (\<open>total_call_fn\<close>).
\<close>

lemma isPromise_flags: "same_flags h h' \<Longrightarrow> isPromise h' v = isPromise h v"
  by (cases v) (simp_all add: isPromise_def same_flags_def)

lemma value_ok_flags: "same_flags h h' \<Longrightarrow> value_ok h' p = value_ok h p"
  by (simp add: value_ok_def isPromise_flags)

lemma same_flags_refl: "same_flags h h"
  by (simp add: same_flags_def)

lemma same_flags_trans: "same_flags h h1 \<Longrightarrow> same_flags h1 h2 \<Longrightarrow> same_flags h h2"
  by (simp add: same_flags_def)

lemma step_refl: "step T h h"
  by (simp add: step_def same_flags_refl)

lemma step_trans:
  assumes "step T h h1" "step T h1 h2"
  shows "step T h h2"
proof -
  have n: "next_promise h \<le> next_promise h1" "next_promise h1 \<le> next_promise h2"
    using assms by (simp_all add: step_def)
  have f: "same_flags h h2"
    using assms by (auto simp: step_def intro: same_flags_trans)
  have "core (promises h2 a) = core (promises h a)"
    if a: "a < next_promise h" and c: "p_state (promises h a) \<noteq> PENDING \<or> a \<notin> T" for a
  proof -
    have 1: "core (promises h1 a) = core (promises h a)"
      using assms(1) a c by (simp add: step_def)
    then have "p_state (promises h1 a) = p_state (promises h a)"
      by (simp add: core_def)
    with c have c1: "p_state (promises h1 a) \<noteq> PENDING \<or> a \<notin> T" by simp
    have "a < next_promise h1" using a n by simp
    with assms(2) c1 have "core (promises h2 a) = core (promises h1 a)"
      by (simp add: step_def)
    with 1 show ?thesis by simp
  qed
  with n f show ?thesis by (simp add: step_def)
qed

lemma step_isPromise: "step T h h' \<Longrightarrow> isPromise h' v = isPromise h v"
  by (simp add: step_def isPromise_flags)

lemma upd_promise_simps [simp]:
  "next_promise (upd_promise h q f) = next_promise h"
  "foreigns (upd_promise h q f) = foreigns h"
  "latches (upd_promise h q f) = latches h"
  "promises (upd_promise h q f) a = (if a = q then f (promises h q) else promises h a)"
  by (simp_all add: upd_promise_def)

lemma same_flags_upd: "same_flags h (upd_promise h q f)"
  by (simp add: same_flags_def)

lemma wf_upd:
  assumes "wf_heap T D h"
    and "q < next_promise h \<Longrightarrow> lists_ok T D (f (promises h q))"
    and "value_ok h (f (promises h q))"
  shows "wf_heap T D (upd_promise h q f)"
  using assms unfolding wf_heap_def
  by (simp add: value_ok_flags[OF same_flags_upd])

lemma step_upd:
  assumes "core (f (promises h q)) = core (promises h q) \<or> (q \<in> T \<and> p_state (promises h q) = PENDING)"
  shows "step T h (upd_promise h q f)"
  using assms unfolding step_def by (auto simp: same_flags_upd)

lemma wf_lists: "wf_heap T D h \<Longrightarrow> a < next_promise h \<Longrightarrow> lists_ok T D (promises h a)"
  by (simp add: wf_heap_def)

lemma wf_value: "wf_heap T D h \<Longrightarrow> value_ok h (promises h a)"
  by (simp add: wf_heap_def)

lemma wf_new_promise: "wf_heap T D h \<Longrightarrow> wf_heap T D (fst (new_promise h))"
proof -
  assume w: "wf_heap T D h"
  let ?h = "fst (new_promise h)"
  have sf: "same_flags h ?h" by (simp add: new_promise_def same_flags_def)
  have 1: "\<forall>a\<in>T. a < next_promise ?h" using w by (auto simp: wf_heap_def new_promise_def)
  have 2: "\<forall>a < next_promise ?h. lists_ok T D (promises ?h a)"
    using w by (auto simp: wf_heap_def new_promise_def less_Suc_eq lists_ok_def fresh_promise_def)
  have 3: "\<forall>a. value_ok ?h (promises ?h a)"
    using w by (auto simp: value_ok_flags[OF sf] wf_heap_def) (auto simp: new_promise_def value_ok_def fresh_promise_def)
  from w 1 2 3 show ?thesis by (simp add: wf_heap_def)
qed

lemma step_new_promise: "step T h (fst (new_promise h))"
  unfolding step_def new_promise_def same_flags_def core_def by auto

lemma ok_returns: "wf_heap T D h1 \<Longrightarrow> step T h h1 \<Longrightarrow> ok_res T D h (returns h1 x)"
  by (simp add: ok_res_def returns_def)

lemma ok_raises: "wf_heap T D h1 \<Longrightarrow> step T h h1 \<Longrightarrow> ok_res T D h (raises h1 e)"
  by (simp add: ok_res_def raises_def)

lemma ok_None: "ok_res T D h None"
  by (simp add: ok_res_def)

lemma ok_weaken: "ok_res T D h1 m \<Longrightarrow> step T h h1 \<Longrightarrow> ok_res T D h m"
  unfolding ok_res_def using step_trans by blast

lemma ok_bind:
  assumes "ok_res T D h m"
    and "\<And>h1 x. wf_heap T D h1 \<Longrightarrow> step T h h1 \<Longrightarrow> ok_res T D h1 (k h1 x)"
  shows "ok_res T D h (bind_res m k)"
proof (cases m)
  case None
  then show ?thesis by (simp add: bind_res_def ok_None)
next
  case (Some z)
  obtain h1 r where z: "z = (h1, r)" by (cases z)
  from assms(1) Some z have 1: "wf_heap T D h1" "step T h h1" by (auto simp: ok_res_def)
  show ?thesis
  proof (cases r)
    case (Inl e)
    with Some z 1 show ?thesis by (simp add: bind_res_def ok_res_def)
  next
    case (Inr x)
    from assms(2)[OF 1] have "ok_res T D h (k h1 x)" using 1(2) by (rule ok_weaken)
    with Some z Inr show ?thesis by (simp add: bind_res_def)
  qed
qed

lemma ok_try:
  assumes "ok_res T D h m"
    and "\<And>h1 e. wf_heap T D h1 \<Longrightarrow> step T h h1 \<Longrightarrow> ok_res T D h1 (handler h1 e)"
  shows "ok_res T D h (try_except m handler)"
proof (cases m)
  case None
  then show ?thesis by (simp add: try_except_def ok_None)
next
  case (Some z)
  obtain h1 r where z: "z = (h1, r)" by (cases z)
  from assms(1) Some z have 1: "wf_heap T D h1" "step T h h1" by (auto simp: ok_res_def)
  show ?thesis
  proof (cases r)
    case (Inr x)
    with Some z 1 show ?thesis by (simp add: try_except_def ok_res_def)
  next
    case (Inl e)
    from assms(2)[OF 1] have "ok_res T D h (handler h1 e)" using 1(2) by (rule ok_weaken)
    with Some z Inl show ?thesis by (simp add: try_except_def)
  qed
qed

lemma ok_call: "sound T D call \<Longrightarrow> wf_heap T D h \<Longrightarrow> targets f \<subseteq> T \<Longrightarrow> ok_res T D h (call h f v)"
  by (simp add: sound_def)

lemma ok_foreign_register:
  assumes "wf_heap T D h"
  shows "ok_res T D h (foreign_register h a f g)"
proof -
  let ?h = "h\<lparr>foreigns := (foreigns h)
             (a := (foreigns h a)\<lparr>f_registered := f_registered (foreigns h a) @ [(f, g)]\<rparr>)\<rparr>"
  have sf: "same_flags h ?h" by (simp add: same_flags_def)
  have "step T h ?h" using sf by (simp add: step_def)
  moreover have "wf_heap T D ?h"
    using assms by (simp add: wf_heap_def value_ok_flags[OF sf])
  ultimately show ?thesis using assms
    by (auto simp: foreign_register_def split: option.splits intro: ok_raises ok_returns step_refl)
qed

lemma ok_promisify:
  assumes "wf_heap T D h"
  shows "ok_res T D h (promisify h x)"
proof -
  have new: "ok_res T D h
      (bind_res (foreign_register (fst (new_promise h)) a f g) (\<lambda>h2 _. returns h2 (p::addr)))" for a f g p
    by (rule ok_weaken[OF _ step_new_promise])
       (intro ok_bind ok_foreign_register wf_new_promise assms ok_returns step_refl)
  show ?thesis
    using assms new
    by (cases x) (auto simp: promisify_def new_promise_def intro: ok_returns ok_raises step_refl)
qed

lemma ok_run_callbacks:
  assumes "sound T D call"
  shows "wf_heap T D h \<Longrightarrow> list_all (fn_ok T D) fs \<Longrightarrow> ok_res T D h (run_callbacks call h fs v)"
proof (induction fs arbitrary: h)
  case Nil
  then show ?case by (simp add: ok_returns step_refl)
next
  case (Cons c cs)
  have c: "ok_res T D h (call h c v)"
    using Cons.prems assms by (simp add: sound_def fn_ok_def)
  show ?case
  proof (cases "call h c v")
    case None
    then show ?thesis by (simp add: ok_None)
  next
    case (Some z)
    obtain h1 r where z: "z = (h1, r)" by (cases z)
    with c Some have 1: "wf_heap T D h1" "step T h h1" by (auto simp: ok_res_def)
    with Cons have "ok_res T D h1 (run_callbacks call h1 cs v)" by simp
    with 1 Some z show ?thesis by (simp add: ok_weaken)
  qed
qed

lemma ok_fulfill':
  assumes s: "sound T D call" and w: "wf_heap T D h" and t: "self \<in> T" and v: "\<not> isPromise h v"
  shows "ok_res T D h (fulfill' call h self v)"
proof (cases "p_state (promises h self) = PENDING")
  case False
  then show ?thesis using w by (simp add: fulfill'_def ok_raises step_refl)
next
  case True
  let ?h1 = "upd_promise h self (\<lambda>p. p\<lparr>p_value := v, p_state := FULFILLED, p_callbacks := None\<rparr>)"
  have lt: "self < next_promise h" using w t by (simp add: wf_heap_def)
  have lo: "lists_ok T D (promises h self)" using w lt by (rule wf_lists)
  have w1: "wf_heap T D ?h1"
    using lo v by (intro wf_upd w) (simp_all add: lists_ok_def value_ok_def)
  have s1: "step T h ?h1" using t True by (intro step_upd) simp
  show ?thesis
  proof (cases "p_callbacks (promises h self)")
    case None
    with True w1 s1 show ?thesis by (simp add: fulfill'_def ok_raises)
  next
    case (Some cbs)
    with lo True have "list_all (fn_ok T D) cbs" by (auto simp: lists_ok_def)
    from ok_run_callbacks[OF s w1 this] s1 have "ok_res T D h (run_callbacks call ?h1 cbs v)"
      by (rule ok_weaken)
    with True Some show ?thesis by (simp add: fulfill'_def)
  qed
qed

lemma ok_reject:
  assumes s: "sound T D call" and w: "wf_heap T D h" and t: "self \<in> T"
  shows "ok_res T D h (reject call h self r)"
proof (cases "p_state (promises h self) = PENDING")
  case False
  then show ?thesis using w by (simp add: reject_def ok_raises step_refl)
next
  case True
  let ?h1 = "upd_promise h self (\<lambda>p. p\<lparr>p_reason := r, p_state := REJECTED, p_errbacks := None\<rparr>)"
  have lt: "self < next_promise h" using w t by (simp add: wf_heap_def)
  have lo: "lists_ok T D (promises h self)" using w lt by (rule wf_lists)
  have w1: "wf_heap T D ?h1"
    using lo by (intro wf_upd w) (simp_all add: lists_ok_def value_ok_def)
  have s1: "step T h ?h1" using t True by (intro step_upd) simp
  show ?thesis
  proof (cases "p_errbacks (promises h self)")
    case None
    with True w1 s1 show ?thesis by (simp add: reject_def ok_raises)
  next
    case (Some ebs)
    with lo True have "list_all (fn_ok T D) ebs" by (auto simp: lists_ok_def)
    from ok_run_callbacks[OF s w1 this] s1 have "ok_res T D h (run_callbacks call ?h1 ebs r)"
      by (rule ok_weaken)
    with True Some show ?thesis by (simp add: reject_def)
  qed
qed

lemma ok_addCallback:
  assumes s: "sound T D call" and w: "wf_heap T D h" and g: "\<And>g. f = VFun g \<Longrightarrow> fn_ok T D g"
  shows "ok_res T D h (addCallback call h q f)"
proof (cases f)
  case (VFun g)
  have gok: "fn_ok T D g" using g VFun by simp
  show ?thesis
  proof (cases "p_state (promises h q) = PENDING")
    case True
    show ?thesis
    proof (cases "p_callbacks (promises h q)")
      case None
      with True VFun w show ?thesis by (simp add: addCallback_def ok_raises step_refl)
    next
      case (Some cbs)
      let ?h1 = "upd_promise h q (\<lambda>p. p\<lparr>p_callbacks := Some (cbs @ [g])\<rparr>)"
      have "q < next_promise h \<Longrightarrow> lists_ok T D (promises h q)" using w by (rule wf_lists)
      then have w1: "wf_heap T D ?h1"
        using gok Some True by (intro wf_upd w) (auto simp: lists_ok_def value_ok_def)
      have s1: "step T h ?h1" by (intro step_upd) (simp add: core_def)
      from True VFun Some w1 s1 show ?thesis by (simp add: addCallback_def ok_returns)
    qed
  next
    case False
    have "ok_res T D h (bind_res (call h g (p_value (promises h q))) (\<lambda>h1 _. returns h1 VNone))"
      using gok by (intro ok_bind ok_call[OF s w] ok_returns step_refl) (simp_all add: fn_ok_def)
    with False VFun w show ?thesis by (simp add: addCallback_def ok_returns step_refl)
  qed
qed (use w in \<open>simp_all add: addCallback_def ok_raises step_refl\<close>)

lemma ok_addErrback:
  assumes s: "sound T D call" and w: "wf_heap T D h" and g: "\<And>g. f = VFun g \<Longrightarrow> fn_ok T D g"
  shows "ok_res T D h (addErrback call h q f)"
proof (cases f)
  case (VFun g)
  have gok: "fn_ok T D g" using g VFun by simp
  show ?thesis
  proof (cases "p_state (promises h q) = PENDING")
    case True
    show ?thesis
    proof (cases "p_errbacks (promises h q)")
      case None
      with True VFun w show ?thesis by (simp add: addErrback_def ok_raises step_refl)
    next
      case (Some cbs)
      let ?h1 = "upd_promise h q (\<lambda>p. p\<lparr>p_errbacks := Some (cbs @ [g])\<rparr>)"
      have "q < next_promise h \<Longrightarrow> lists_ok T D (promises h q)" using w by (rule wf_lists)
      then have w1: "wf_heap T D ?h1"
        using gok Some True by (intro wf_upd w) (auto simp: lists_ok_def value_ok_def)
      have s1: "step T h ?h1" by (intro step_upd) (simp add: core_def)
      from True VFun Some w1 s1 show ?thesis by (simp add: addErrback_def ok_returns)
    qed
  next
    case False
    have "ok_res T D h (bind_res (call h g (p_reason (promises h q))) (\<lambda>h1 _. returns h1 VNone))"
      using gok by (intro ok_bind ok_call[OF s w] ok_returns step_refl) (simp_all add: fn_ok_def)
    with False VFun w show ?thesis by (simp add: addErrback_def ok_returns step_refl)
  qed
qed (use w in \<open>simp_all add: addErrback_def ok_raises step_refl\<close>)

lemma ok_done':
  assumes s: "sound T D call" and w: "wf_heap T D h"
    and g1: "\<And>g. f1 = VFun g \<Longrightarrow> fn_ok T D g" and g2: "\<And>g. f2 = VFun g \<Longrightarrow> fn_ok T D g"
  shows "ok_res T D h (done' call h q f1 f2)"
proof -
  have a: "ok_res T D h (if f1 \<noteq> VNone then addCallback call h q f1 else returns h VNone)"
    using w by (simp add: ok_addCallback[OF s w g1] ok_returns step_refl)
  have b: "ok_res T D h1 (if f2 \<noteq> VNone then addErrback call h1 q f2 else returns h1 VNone)"
    if "wf_heap T D h1" for h1
    using that by (simp add: ok_addErrback[OF s that g2] ok_returns step_refl)
  show ?thesis
    unfolding done'_def by (rule ok_bind[OF a]) (rule b)
qed

lemma has_then_isPromise: "has_then h x \<Longrightarrow> isPromise h x"
  by (simp add: isPromise_def)

lemma ok_fulfill:
  assumes s: "sound T D call" and w: "wf_heap T D h" and t: "self \<in> T"
  shows "ok_res T D h (fulfill call h self x)"
proof -
  have D: "1 \<le> D" using w by (simp add: wf_heap_def)
  have f1: "fn_ok T D (Fulfill self)" "fn_ok T D (Reject self)"
    using t D by (simp_all add: fn_ok_def)
  have a: "ok_res T D h
     (try_except
        (bind_res (promisify h x)
           (\<lambda>h1 q. done' call h1 q (VFun (Fulfill self)) (VFun (Reject self))))
        (\<lambda>h2 e. reject call h2 self (VExc e)))"
    by (intro ok_try ok_bind ok_promisify w ok_done' s ok_reject t) (use f1 in auto)
  have b: "\<not> isPromise h x \<Longrightarrow> ok_res T D h (fulfill' call h self x)"
    by (intro ok_fulfill' s w t)
  show ?thesis
    using a b w has_then_isPromise[of h x]
    by (auto simp: fulfill_def ok_raises step_refl)
qed

lemma ok_callAndFulfill:
  assumes s: "sound T D call" and w: "wf_heap T D h" and t: "insert ret (targets_val success) \<subseteq> T"
  shows "ok_res T D h (callAndFulfill call h ret success v)"
proof -
  have r: "ret \<in> T" using t by simp
  have "ok_res T D h (case success of
          VFun f \<Rightarrow> bind_res (call h f v) (\<lambda>h1 w. fulfill call h1 ret w)
        | _ \<Rightarrow> fulfill call h ret v)"
    using t by (cases success) (auto intro!: ok_bind ok_call[OF s w] ok_fulfill s w r)
  then show ?thesis
    unfolding callAndFulfill_def by (intro ok_try ok_reject s r)
qed

lemma ok_callAndReject:
  assumes s: "sound T D call" and w: "wf_heap T D h" and t: "insert ret (targets_val failure) \<subseteq> T"
  shows "ok_res T D h (callAndReject call h ret failure v)"
proof -
  have r: "ret \<in> T" using t by simp
  have "ok_res T D h (case failure of
          VFun f \<Rightarrow> bind_res (call h f v) (\<lambda>h1 w. fulfill call h1 ret w)
        | _ \<Rightarrow> reject call h ret v)"
    using t by (cases failure) (auto intro!: ok_bind ok_call[OF s w] ok_fulfill ok_reject s w r)
  then show ?thesis
    unfolding callAndReject_def by (intro ok_try ok_reject s r)
qed

lemma ok_dec:
  assumes "wf_heap T D h" "dec h c = (h1, r)"
  shows "wf_heap T D h1 \<and> step T h h1"
proof -
  have eq: "promises h1 = promises h \<and> next_promise h1 = next_promise h \<and> foreigns h1 = foreigns h"
    using assms(2) by (auto simp: dec_def split: if_splits)
  then have sf: "same_flags h h1" by (simp add: same_flags_def)
  with eq assms(1) show ?thesis
    by (simp add: step_def wf_heap_def value_ok_flags[OF sf])
qed

lemma ok_handleSuccess:
  assumes s: "sound T D call" and w: "wf_heap T D h" and t: "ret \<in> T"
  shows "ok_res T D h (handleSuccess call h counter ps ret v)"
proof -
  obtain h1 r where d: "dec h counter = (h1, r)" by (cases "dec h counter")
  from ok_dec[OF w d] have w1: "wf_heap T D h1" and s1: "step T h h1" by auto
  have nl: "\<not> isPromise h1 (VList vs)" for vs by (simp add: isPromise_def)
  have "ok_res T D h1 (fulfill call h1 ret (VList vs))" for vs
    by (intro ok_fulfill s w1 t)
  with w1 have "ok_res T D h1 (handleSuccess call h counter ps ret v)"
    using d by (auto simp: handleSuccess_def ok_raises ok_returns step_refl split: sum.splits option.splits)
  then show ?thesis using s1 by (rule ok_weaken)
qed

lemma sound_call_fn: "sound T D (call_fn n E)"
proof (induction n)
  case 0
  then show ?case by (simp add: sound_def ok_None)
next
  case (Suc n)
  show ?case
    unfolding sound_def
  proof (intro allI impI, elim conjE)
    fix h f v
    assume w: "wf_heap T D h" and t: "targets f \<subseteq> T"
    show "ok_res T D h (call_fn (Suc n) E h f v)"
    proof (cases f)
      case (UserFn i)
      then show ?thesis using w by (simp add: ok_res_def step_refl)
    next
      case (Fulfill a)
      then show ?thesis using t by (simp add: ok_fulfill[OF Suc w])
    next
      case (Reject a)
      then show ?thesis using t by (simp add: ok_reject[OF Suc w])
    next
      case (CallAndFulfill ret s)
      then show ?thesis using t by (simp add: ok_callAndFulfill[OF Suc w])
    next
      case (CallAndReject ret s)
      then show ?thesis using t by (simp add: ok_callAndReject[OF Suc w])
    next
      case (HandleSuccess c ps ret)
      then show ?thesis using t by (simp add: ok_handleSuccess[OF Suc w])
    qed
  qed
qed

lemma extra_le: "extra h f v \<le> 1"
  by (cases f) simp_all

lemma extra_plain: "\<not> isPromise h v \<Longrightarrow> extra h f v = 0"
  by (cases f) simp_all

lemma mu_step:
  assumes "wf_heap T D h" "step T h h'"
  shows "mu T h' \<le> mu T h"
proof -
  have "p_state (promises h a) = PENDING" if "a \<in> T" "p_state (promises h' a) = PENDING" for a
  proof (rule ccontr)
    assume n: "p_state (promises h a) \<noteq> PENDING"
    have "a < next_promise h" using assms(1) that(1) by (simp add: wf_heap_def)
    with assms(2) n have "core (promises h' a) = core (promises h a)" by (simp add: step_def)
    with n that(2) show False by (simp add: core_def)
  qed
  then have "{a \<in> T. p_state (promises h' a) = PENDING} \<subseteq> {a \<in> T. p_state (promises h a) = PENDING}"
    by auto
  moreover have "finite {a \<in> T. p_state (promises h a) = PENDING}"
    using assms(1) by (simp add: wf_heap_def)
  ultimately show ?thesis unfolding mu_def by (rule card_mono[rotated])
qed

lemma mu_settle:
  assumes "finite T" "self \<in> T" "p_state (promises h self) = PENDING"
    and "p_state (f (promises h self)) \<noteq> PENDING"
  shows "Suc (mu T (upd_promise h self f)) \<le> mu T h"
proof -
  let ?A = "{a \<in> T. p_state (promises h a) = PENDING}"
  let ?B = "{a \<in> T. p_state (promises (upd_promise h self f) a) = PENDING}"
  have "a \<in> ?B \<longleftrightarrow> a \<in> ?A - {self}" for a
    using assms(4) by (cases "a = self") simp_all
  then have eq: "?B = ?A - {self}" by blast
  have in_A: "self \<in> ?A" using assms(2,3) by simp
  have fin: "finite ?A" using assms(1) by simp
  have "Suc (card (?A - {self})) = card ?A"
    using fin in_A by (rule card_Suc_Diff1)
  then show ?thesis unfolding mu_def eq by simp
qed

lemma budget_settle:
  assumes "Suc m1 \<le> m" "m * (D + 2) \<le> b"
  shows "D + 1 + m1 * (D + 2) \<le> b"
proof -
  have "Suc m1 * (D + 2) \<le> m * (D + 2)" using assms(1) by (rule mult_le_mono1)
  with assms(2) show ?thesis by simp
qed

lemma tm_bind:
  assumes "m \<noteq> None" "ok_res T D h m"
    and "\<And>h1 x. wf_heap T D h1 \<Longrightarrow> step T h h1 \<Longrightarrow> k h1 x \<noteq> None"
  shows "bind_res m k \<noteq> None"
proof -
  from assms(1) obtain h1 r where m: "m = Some (h1, r)" by (cases m) auto
  with assms(2) have 1: "wf_heap T D h1" "step T h h1" by (auto simp: ok_res_def)
  show ?thesis using m assms(3)[OF 1] by (cases r) (simp_all add: bind_res_def)
qed

lemma tm_try:
  assumes "m \<noteq> None" "ok_res T D h m"
    and "\<And>h1 e. wf_heap T D h1 \<Longrightarrow> step T h h1 \<Longrightarrow> handler h1 e \<noteq> None"
  shows "try_except m handler \<noteq> None"
proof -
  from assms(1) obtain h1 r where m: "m = Some (h1, r)" by (cases m) auto
  with assms(2) have 1: "wf_heap T D h1" "step T h h1" by (auto simp: ok_res_def)
  show ?thesis using m assms(3)[OF 1] by (cases r) (simp_all add: try_except_def)
qed

lemma tm_call:
  "total T D b call \<Longrightarrow> wf_heap T D h \<Longrightarrow> targets f \<subseteq> T \<Longrightarrow>
   depth f + extra h f v + mu T h * (D + 2) \<le> b \<Longrightarrow> call h f v \<noteq> None"
  by (simp add: total_def)

lemma foreign_register_total: "foreign_register h a f g \<noteq> None"
  by (simp add: foreign_register_def raises_def returns_def split: option.splits)

lemma promisify_total: "promisify h x \<noteq> None"
  by (cases x)
     (auto simp: promisify_def raises_def returns_def bind_res_def foreign_register_def
           split: option.splits prod.splits)

lemma tm_run_callbacks:
  assumes s: "sound T D call" and t: "total T D b call"
  shows "wf_heap T D h \<Longrightarrow> list_all (fn_ok T D) fs \<Longrightarrow>
         D + (if isPromise h v then 1 else 0) + mu T h * (D + 2) \<le> b \<Longrightarrow>
         run_callbacks call h fs v \<noteq> None"
proof (induction fs arbitrary: h)
  case Nil
  then show ?case by (simp add: returns_def)
next
  case (Cons c cs)
  have ck: "targets c \<subseteq> T" "depth c \<le> D" using Cons.prems(2) by (simp_all add: fn_ok_def)
  have "extra h c v \<le> (if isPromise h v then 1 else 0)"
    by (cases c) simp_all
  with ck Cons.prems(3) have "depth c + extra h c v + mu T h * (D + 2) \<le> b" by simp
  with t Cons.prems(1) ck(1) have "call h c v \<noteq> None" by (simp add: total_def)
  then obtain h1 r where c: "call h c v = Some (h1, r)" by (cases "call h c v") auto
  have "ok_res T D h (call h c v)" using s Cons.prems(1) ck(1) by (simp add: sound_def)
  with c have 1: "wf_heap T D h1" "step T h h1" by (auto simp: ok_res_def)
  have "mu T h1 \<le> mu T h" using Cons.prems(1) 1(2) by (rule mu_step)
  then have "mu T h1 * (D + 2) \<le> mu T h * (D + 2)" by (rule mult_le_mono1)
  moreover have "isPromise h1 v = isPromise h v" using 1(2) by (rule step_isPromise)
  ultimately have "D + (if isPromise h1 v then 1 else 0) + mu T h1 * (D + 2) \<le> b"
    using Cons.prems(3) by simp
  with Cons.IH[OF 1(1)] Cons.prems(2) have "run_callbacks call h1 cs v \<noteq> None" by simp
  with c show ?case by simp
qed

lemma tm_fulfill':
  assumes s: "sound T D call" and t: "total T D b call" and w: "wf_heap T D h"
    and self: "self \<in> T" and v: "\<not> isPromise h v" and b: "mu T h * (D + 2) \<le> b"
  shows "fulfill' call h self v \<noteq> None"
proof (cases "p_state (promises h self) = PENDING")
  case False
  then show ?thesis by (simp add: fulfill'_def raises_def)
next
  case True
  let ?f = "\<lambda>p. p\<lparr>p_value := v, p_state := FULFILLED, p_callbacks := None\<rparr>"
  let ?h1 = "upd_promise h self ?f"
  have lt: "self < next_promise h" using w self by (simp add: wf_heap_def)
  have lo: "lists_ok T D (promises h self)" using w lt by (rule wf_lists)
  have w1: "wf_heap T D ?h1"
    using lo v by (intro wf_upd w) (simp_all add: lists_ok_def value_ok_def)
  have fin: "finite T" using w by (simp add: wf_heap_def)
  have m: "Suc (mu T ?h1) \<le> mu T h" by (rule mu_settle[OF fin self True]) simp
  have v1: "\<not> isPromise ?h1 v" using v by (simp add: isPromise_flags[OF same_flags_upd])
  have bud: "D + (if isPromise ?h1 v then 1 else 0) + mu T ?h1 * (D + 2) \<le> b"
    using budget_settle[OF m b] v1 by simp
  show ?thesis
  proof (cases "p_callbacks (promises h self)")
    case None
    with True show ?thesis by (simp add: fulfill'_def raises_def)
  next
    case (Some cbs)
    with lo True have "list_all (fn_ok T D) cbs" by (auto simp: lists_ok_def)
    from tm_run_callbacks[OF s t w1 this bud] True Some show ?thesis by (simp add: fulfill'_def)
  qed
qed

lemma tm_reject:
  assumes s: "sound T D call" and t: "total T D b call" and w: "wf_heap T D h"
    and self: "self \<in> T" and b: "mu T h * (D + 2) \<le> b"
  shows "reject call h self r \<noteq> None"
proof (cases "p_state (promises h self) = PENDING")
  case False
  then show ?thesis by (simp add: reject_def raises_def)
next
  case True
  let ?f = "\<lambda>p. p\<lparr>p_reason := r, p_state := REJECTED, p_errbacks := None\<rparr>"
  let ?h1 = "upd_promise h self ?f"
  have lt: "self < next_promise h" using w self by (simp add: wf_heap_def)
  have lo: "lists_ok T D (promises h self)" using w lt by (rule wf_lists)
  have w1: "wf_heap T D ?h1"
    using lo by (intro wf_upd w) (simp_all add: lists_ok_def value_ok_def)
  have fin: "finite T" using w by (simp add: wf_heap_def)
  have m: "Suc (mu T ?h1) \<le> mu T h" by (rule mu_settle[OF fin self True]) simp
  have bud: "D + (if isPromise ?h1 r then 1 else 0) + mu T ?h1 * (D + 2) \<le> b"
    using budget_settle[OF m b] by simp
  show ?thesis
  proof (cases "p_errbacks (promises h self)")
    case None
    with True show ?thesis by (simp add: reject_def raises_def)
  next
    case (Some ebs)
    with lo True have "list_all (fn_ok T D) ebs" by (auto simp: lists_ok_def)
    from tm_run_callbacks[OF s t w1 this bud] True Some show ?thesis by (simp add: reject_def)
  qed
qed

lemma tm_addCallback:
  assumes t: "total T D b call" and w: "wf_heap T D h"
    and g: "\<And>g. f = VFun g \<Longrightarrow> targets g \<subseteq> T \<and> depth g + mu T h * (D + 2) \<le> b"
  shows "addCallback call h q f \<noteq> None"
proof (cases f)
  case (VFun g')
  have "\<not> isPromise h (p_value (promises h q))" if "p_state (promises h q) = FULFILLED"
    using wf_value[OF w, of q] that by (simp add: value_ok_def)
  then have "call h g' (p_value (promises h q)) \<noteq> None" if "p_state (promises h q) = FULFILLED"
    using g[OF VFun] that by (intro tm_call[OF t w]) (simp_all add: extra_plain)
  then show ?thesis
    using VFun
    by (auto simp: addCallback_def raises_def returns_def bind_res_def split: option.splits sum.splits)
qed (simp_all add: addCallback_def raises_def)

lemma tm_addErrback:
  assumes t: "total T D b call" and w: "wf_heap T D h"
    and g: "\<And>g. f = VFun g \<Longrightarrow> targets g \<subseteq> T \<and>
              depth g + extra h g (p_reason (promises h q)) + mu T h * (D + 2) \<le> b"
  shows "addErrback call h q f \<noteq> None"
proof (cases f)
  case (VFun g')
  have "call h g' (p_reason (promises h q)) \<noteq> None"
    using g[OF VFun] by (intro tm_call[OF t w]) simp_all
  then show ?thesis
    using VFun
    by (auto simp: addErrback_def raises_def returns_def bind_res_def split: option.splits sum.splits)
qed (simp_all add: addErrback_def raises_def)

lemma budget_step:
  assumes "wf_heap T D h" "step T h h1" "c + mu T h * (D + 2) \<le> b"
  shows "c + mu T h1 * (D + 2) \<le> b"
proof -
  have "mu T h1 \<le> mu T h" using assms(1,2) by (rule mu_step)
  then have "mu T h1 * (D + 2) \<le> mu T h * (D + 2)" by (rule mult_le_mono1)
  with assms(3) show ?thesis by simp
qed

lemma tm_done':
  assumes s: "sound T D call" and t: "total T D b call" and w: "wf_heap T D h"
    and g1: "\<And>g. f1 = VFun g \<Longrightarrow> fn_ok T D g \<and> depth g + mu T h * (D + 2) \<le> b"
    and g2: "\<And>g. f2 = VFun g \<Longrightarrow> fn_ok T D g \<and> (\<forall>h' v. extra h' g v = 0) \<and>
                depth g + mu T h * (D + 2) \<le> b"
  shows "done' call h q f1 f2 \<noteq> None"
proof -
  let ?m = "if f1 \<noteq> VNone then addCallback call h q f1 else returns h VNone"
  have "addCallback call h q f1 \<noteq> None"
    by (rule tm_addCallback[OF t w]) (use g1 in \<open>simp add: fn_ok_def\<close>)
  then have a: "?m \<noteq> None" by (simp add: returns_def)
  have ok: "ok_res T D h ?m"
    using w g1 by (simp add: ok_addCallback[OF s w] ok_returns step_refl)
  have b: "(if f2 \<noteq> VNone then addErrback call h1 q f2 else returns h1 VNone) \<noteq> None"
    if w1: "wf_heap T D h1" and s1: "step T h h1" for h1
  proof -
    have "targets g \<subseteq> T \<and> depth g + extra h1 g (p_reason (promises h1 q)) + mu T h1 * (D + 2) \<le> b"
      if "f2 = VFun g" for g
      using g2[OF that] budget_step[OF w s1, of "depth g" b] by (simp add: fn_ok_def)
    then have "addErrback call h1 q f2 \<noteq> None"
      by (intro tm_addErrback[OF t w1]) simp
    then show ?thesis by (simp add: returns_def)
  qed
  show ?thesis unfolding done'_def by (rule tm_bind[OF a ok]) (rule b)
qed

lemma ok_adopt:
  assumes s: "sound T D call" and w: "wf_heap T D h" and t: "self \<in> T"
  shows "ok_res T D h (bind_res (promisify h x)
           (\<lambda>h1 q. done' call h1 q (VFun (Fulfill self)) (VFun (Reject self))))"
proof -
  have D: "1 \<le> D" using w by (simp add: wf_heap_def)
  have f1: "fn_ok T D (Fulfill self)" "fn_ok T D (Reject self)"
    using t D by (simp_all add: fn_ok_def)
  show ?thesis
    by (intro ok_bind ok_promisify w ok_done' s) (use f1 in auto)
qed

lemma tm_fulfill:
  assumes s: "sound T D call" and t: "total T D b call" and w: "wf_heap T D h"
    and self: "self \<in> T"
    and b: "(if isPromise h x then 1 else 0) + mu T h * (D + 2) \<le> b"
  shows "fulfill call h self x \<noteq> None"
proof -
  have D: "1 \<le> D" using w by (simp add: wf_heap_def)
  have f1: "fn_ok T D (Fulfill self)" "fn_ok T D (Reject self)"
    using self D by (simp_all add: fn_ok_def)
  have b0: "mu T h * (D + 2) \<le> b" using b by (simp split: if_splits)
  have rej: "reject call h1 self r \<noteq> None" if "wf_heap T D h1" "step T h h1" for h1 r
    using budget_step[OF w that(2), of 0 b] b0 by (intro tm_reject[OF s t that(1) self]) simp
  have adopt: "try_except
        (bind_res (promisify h x)
           (\<lambda>h1 q. done' call h1 q (VFun (Fulfill self)) (VFun (Reject self))))
        (\<lambda>h2 e. reject call h2 self (VExc e)) \<noteq> None" if ip: "isPromise h x"
  proof (rule tm_try[OF _ ok_adopt[OF s w self]])
    have b1: "1 + mu T h * (D + 2) \<le> b" using b ip by simp
    show "bind_res (promisify h x)
           (\<lambda>h1 q. done' call h1 q (VFun (Fulfill self)) (VFun (Reject self))) \<noteq> None"
    proof (rule tm_bind[OF promisify_total ok_promisify[OF w]])
      fix h1 q
      assume w1: "wf_heap T D h1" and s1: "step T h h1"
      have "1 + mu T h1 * (D + 2) \<le> b" using w s1 b1 by (rule budget_step)
      then show "done' call h1 q (VFun (Fulfill self)) (VFun (Reject self)) \<noteq> None"
        using f1 by (intro tm_done'[OF s t w1]) auto
    qed
  next
    fix h1 e
    assume "wf_heap T D h1" "step T h h1"
    then show "reject call h1 self (VExc e) \<noteq> None" by (rule rej)
  qed
  have plain: "fulfill' call h self x \<noteq> None" if "\<not> isPromise h x"
    using that b0 by (intro tm_fulfill'[OF s t w self])
  show ?thesis
    using adopt plain has_then_isPromise[of h x]
    by (auto simp: fulfill_def raises_def)
qed

lemma ok_call_then_fulfill:
  assumes s: "sound T D call" and w: "wf_heap T D h" and t: "insert ret (targets_val g) \<subseteq> T"
  shows "ok_res T D h (case g of
          VFun f \<Rightarrow> bind_res (call h f v) (\<lambda>h1 w. fulfill call h1 ret w)
        | _ \<Rightarrow> fulfill call h ret v)"
proof -
  have r: "ret \<in> T" using t by simp
  show ?thesis
    using t by (cases g) (auto intro!: ok_bind ok_call[OF s w] ok_fulfill s w r)
qed

lemma ok_call_then_reject:
  assumes s: "sound T D call" and w: "wf_heap T D h" and t: "insert ret (targets_val g) \<subseteq> T"
  shows "ok_res T D h (case g of
          VFun f \<Rightarrow> bind_res (call h f v) (\<lambda>h1 w. fulfill call h1 ret w)
        | _ \<Rightarrow> reject call h ret v)"
proof -
  have r: "ret \<in> T" using t by simp
  show ?thesis
    using t by (cases g) (auto intro!: ok_bind ok_call[OF s w] ok_fulfill ok_reject s w r)
qed

lemma tm_call_then_fulfill:
  assumes s: "sound T D call" and t: "total T D b call" and w: "wf_heap T D h"
    and tg: "insert ret (targets_val g) \<subseteq> T"
    and b: "1 + depth_val g + mu T h * (D + 2) \<le> b"
    and f: "g = VFun f"
  shows "bind_res (call h f v) (\<lambda>h1 w. fulfill call h1 ret w) \<noteq> None"
proof -
  have r: "ret \<in> T" and tf: "targets f \<subseteq> T" using tg f by simp_all
  have "depth f + extra h f v + mu T h * (D + 2) \<le> b"
    using b f extra_le[of h f v] by simp
  then have c: "call h f v \<noteq> None" by (rule tm_call[OF t w tf])
  show ?thesis
  proof (rule tm_bind[OF c ok_call[OF s w tf]])
    fix h1 x
    assume w1: "wf_heap T D h1" and s1: "step T h h1"
    have "1 + mu T h * (D + 2) \<le> b" using b by simp
    with w s1 have "1 + mu T h1 * (D + 2) \<le> b" by (rule budget_step)
    then show "fulfill call h1 ret x \<noteq> None"
      by (intro tm_fulfill[OF s t w1 r]) simp
  qed
qed

lemma tm_callAndFulfill:
  assumes s: "sound T D call" and t: "total T D b call" and w: "wf_heap T D h"
    and tg: "insert ret (targets_val success) \<subseteq> T"
    and b: "1 + depth_val success + mu T h * (D + 2) \<le> b"
  shows "callAndFulfill call h ret success v \<noteq> None"
  unfolding callAndFulfill_def
proof (rule tm_try[OF _ ok_call_then_fulfill[OF s w tg]])
  have r: "ret \<in> T" using tg by simp
  have "fulfill call h ret v \<noteq> None"
    using b by (intro tm_fulfill[OF s t w r]) simp
  then show "(case success of
          VFun f \<Rightarrow> bind_res (call h f v) (\<lambda>h1 w. fulfill call h1 ret w)
        | _ \<Rightarrow> fulfill call h ret v) \<noteq> None"
    using tm_call_then_fulfill[OF s t w tg b] by (cases success) simp_all
next
  fix h1 e
  assume w1: "wf_heap T D h1" and s1: "step T h h1"
  have r: "ret \<in> T" using tg by simp
  have "0 + mu T h * (D + 2) \<le> b" using b by simp
  with w s1 have "0 + mu T h1 * (D + 2) \<le> b" by (rule budget_step)
  then show "reject call h1 ret (VExc e) \<noteq> None"
    by (intro tm_reject[OF s t w1 r]) simp
qed

lemma tm_callAndReject:
  assumes s: "sound T D call" and t: "total T D b call" and w: "wf_heap T D h"
    and tg: "insert ret (targets_val failure) \<subseteq> T"
    and b: "1 + depth_val failure + mu T h * (D + 2) \<le> b"
  shows "callAndReject call h ret failure v \<noteq> None"
  unfolding callAndReject_def
proof (rule tm_try[OF _ ok_call_then_reject[OF s w tg]])
  have r: "ret \<in> T" using tg by simp
  have "reject call h ret v \<noteq> None"
    using b by (intro tm_reject[OF s t w r]) simp
  then show "(case failure of
          VFun f \<Rightarrow> bind_res (call h f v) (\<lambda>h1 w. fulfill call h1 ret w)
        | _ \<Rightarrow> reject call h ret v) \<noteq> None"
    using tm_call_then_fulfill[OF s t w tg b] by (cases failure) simp_all
next
  fix h1 e
  assume w1: "wf_heap T D h1" and s1: "step T h h1"
  have r: "ret \<in> T" using tg by simp
  have "0 + mu T h * (D + 2) \<le> b" using b by simp
  with w s1 have "0 + mu T h1 * (D + 2) \<le> b" by (rule budget_step)
  then show "reject call h1 ret (VExc e) \<noteq> None"
    by (intro tm_reject[OF s t w1 r]) simp
qed

lemma tm_handleSuccess:
  assumes s: "sound T D call" and t: "total T D b call" and w: "wf_heap T D h"
    and r: "ret \<in> T" and b: "mu T h * (D + 2) \<le> b"
  shows "handleSuccess call h counter ps ret v \<noteq> None"
proof -
  obtain h1 x where d: "dec h counter = (h1, x)" by (cases "dec h counter")
  from ok_dec[OF w d] have w1: "wf_heap T D h1" and s1: "step T h h1" by auto
  have "0 + mu T h * (D + 2) \<le> b" using b by simp
  with w s1 have b1: "0 + mu T h1 * (D + 2) \<le> b" by (rule budget_step)
  have "fulfill call h1 ret (VList vs) \<noteq> None" for vs
    using b1 by (intro tm_fulfill[OF s t w1 r]) (simp add: isPromise_def)
  then show ?thesis
    using d by (auto simp: handleSuccess_def raises_def returns_def split: sum.splits option.splits)
qed

lemma depth_pos: "1 \<le> depth f"
  by (cases f) simp_all

lemma total_call_fn: "total T D n (call_fn n E)"
proof (induction n)
  case 0
  show ?case
    unfolding total_def
  proof (intro allI impI, elim conjE)
    fix h f v
    assume "depth f + extra h f v + mu T h * (D + 2) \<le> 0"
    then have "depth f = 0" by simp
    with depth_pos[of f] show "call_fn 0 E h f v \<noteq> None" by simp
  qed
next
  case (Suc n)
  note s = sound_call_fn[of T D n E]
  show ?case
    unfolding total_def
  proof (intro allI impI, elim conjE)
    fix h f v
    assume w: "wf_heap T D h" and t: "targets f \<subseteq> T"
      and b: "depth f + extra h f v + mu T h * (D + 2) \<le> Suc n"
    show "call_fn (Suc n) E h f v \<noteq> None"
    proof (cases f)
      case (UserFn i)
      then show ?thesis by simp
    next
      case (Fulfill a)
      with b t show ?thesis by (simp add: tm_fulfill[OF s Suc w])
    next
      case (Reject a)
      with b t show ?thesis by (simp add: tm_reject[OF s Suc w])
    next
      case (CallAndFulfill ret g)
      with b t show ?thesis by (simp add: tm_callAndFulfill[OF s Suc w])
    next
      case (CallAndReject ret g)
      with b t show ?thesis by (simp add: tm_callAndReject[OF s Suc w])
    next
      case (HandleSuccess c ps ret)
      with b t show ?thesis by (simp add: tm_handleSuccess[OF s Suc w])
    qed
  qed
qed

lemma fn_ok_mono: "fn_ok T D f \<Longrightarrow> T \<subseteq> T' \<Longrightarrow> D \<le> D' \<Longrightarrow> fn_ok T' D' f"
  by (auto simp: fn_ok_def)

lemma lists_ok_mono:
  assumes "lists_ok T D p" "T \<subseteq> T'" "D \<le> D'"
  shows "lists_ok T' D' p"
proof -
  have "list_all (fn_ok T D) fs \<Longrightarrow> list_all (fn_ok T' D') fs" for fs
    using assms(2,3) by (auto simp: list_all_iff intro: fn_ok_mono)
  with assms(1) show ?thesis unfolding lists_ok_def by blast
qed

lemma wf_mono:
  assumes "wf_heap T D h" "T \<subseteq> T'" "finite T'" "\<forall>a\<in>T'. a < next_promise h" "D \<le> D'"
  shows "wf_heap T' D' h"
  using assms lists_ok_mono[OF _ assms(2) assms(5)] unfolding wf_heap_def by auto

lemma mu_le_card: "finite T \<Longrightarrow> mu T h \<le> card T"
  unfolding mu_def by (rule card_mono) auto

lemma budget_card:
  assumes "finite T" "card T * (D + 2) \<le> n"
  shows "mu T h * (D + 2) \<le> n"
proof -
  have "mu T h * (D + 2) \<le> card T * (D + 2)"
    using mu_le_card[OF assms(1)] by (rule mult_le_mono1)
  with assms(2) show ?thesis by simp
qed

lemma run_callbacks_result:
  "run_callbacks call h fs v = Some (h', x) \<Longrightarrow> x = Inr VNone"
proof (induction fs arbitrary: h)
  case Nil
  then show ?case by (simp add: returns_def)
next
  case (Cons c cs)
  then show ?case by (auto split: option.splits)
qed

lemma run_callbacks_append:
  "run_callbacks call h (xs @ ys) v =
     (case run_callbacks call h xs v of
        None \<Rightarrow> None
      | Some (h1, _) \<Rightarrow> run_callbacks call h1 ys v)"
proof (induction xs arbitrary: h)
  case Nil
  then show ?case by (simp add: returns_def)
next
  case (Cons c cs)
  then show ?case by (auto split: option.splits)
qed

lemma run_callbacks_wf:
  assumes w: "wf_heap T D h" and fs: "list_all (fn_ok T D) fs"
    and b: "D + 1 + mu T h * (D + 2) \<le> n"
  shows "\<exists>h'. run_callbacks (call_fn n E) h fs v = Some (h', Inr VNone) \<and>
              wf_heap T D h' \<and> step T h h'"
proof -
  have "D + (if isPromise h v then 1 else 0) + mu T h * (D + 2) \<le> n" using b by simp
  from tm_run_callbacks[OF sound_call_fn total_call_fn w fs this]
  obtain h' x where r: "run_callbacks (call_fn n E) h fs v = Some (h', x)" by fastforce
  from run_callbacks_result[OF r] have x: "x = Inr VNone" .
  from ok_run_callbacks[OF sound_call_fn w fs, of n E v] r
  have "wf_heap T D h' \<and> step T h h'" by (simp add: ok_res_def)
  with r x show ?thesis by simp
qed

lemma step_settled:
  assumes "step T h h'" "a < next_promise h" "p_state (promises h a) \<noteq> PENDING"
  shows "p_state (promises h' a) = p_state (promises h a)"
    and "p_value (promises h' a) = p_value (promises h a)"
    and "p_reason (promises h' a) = p_reason (promises h a)"
  using assms by (auto simp: step_def core_def)

lemma step_outside:
  assumes "step T h h'" "a < next_promise h" "a \<notin> T"
  shows "p_state (promises h' a) = p_state (promises h a)"
    and "p_value (promises h' a) = p_value (promises h a)"
    and "p_reason (promises h' a) = p_reason (promises h a)"
  using assms by (auto simp: step_def core_def)

lemma settle_fulfill:
  assumes w: "wf_heap T D h" and a: "a \<in> T" and pend: "p_state (promises h a) = PENDING"
    and v: "\<not> isPromise h V" and b: "card T * (D + 2) \<le> n"
  shows "\<exists>h'. fulfill' (call_fn n E) h a V = Some (h', Inr VNone) \<and>
              wf_heap T D h' \<and> step T h h' \<and>
              p_state (promises h' a) = FULFILLED \<and> p_value (promises h' a) = V"
proof -
  let ?f = "\<lambda>p. p\<lparr>p_value := V, p_state := FULFILLED, p_callbacks := None\<rparr>"
  let ?h1 = "upd_promise h a ?f"
  have fin: "finite T" using w by (simp add: wf_heap_def)
  have lt: "a < next_promise h" using w a by (simp add: wf_heap_def)
  have lo: "lists_ok T D (promises h a)" using w lt by (rule wf_lists)
  with pend obtain cbs where cbs: "p_callbacks (promises h a) = Some cbs" "list_all (fn_ok T D) cbs"
    by (auto simp: lists_ok_def)
  have w1: "wf_heap T D ?h1"
    using v by (intro wf_upd w) (simp_all add: lists_ok_def value_ok_def)
  have s1: "step T h ?h1" using a pend by (intro step_upd) simp
  have m: "Suc (mu T ?h1) \<le> mu T h" by (rule mu_settle[OF fin a pend]) simp
  have "D + 1 + mu T ?h1 * (D + 2) \<le> n"
    by (rule budget_settle[OF m budget_card[OF fin b]])
  from run_callbacks_wf[OF w1 cbs(2) this, of E V]
  obtain h' where r: "run_callbacks (call_fn n E) ?h1 cbs V = Some (h', Inr VNone)"
    and w': "wf_heap T D h'" and s': "step T ?h1 h'" by blast
  have "p_state (promises h' a) = FULFILLED \<and> p_value (promises h' a) = V"
    using step_settled(1,2)[OF s', of a] lt by simp
  moreover have "fulfill' (call_fn n E) h a V = Some (h', Inr VNone)"
    using pend cbs(1) r by (simp add: fulfill'_def)
  ultimately show ?thesis using w' step_trans[OF s1 s'] by blast
qed

lemma settle_reject:
  assumes w: "wf_heap T D h" and a: "a \<in> T" and pend: "p_state (promises h a) = PENDING"
    and b: "card T * (D + 2) \<le> n"
  shows "\<exists>h'. reject (call_fn n E) h a R = Some (h', Inr VNone) \<and>
              wf_heap T D h' \<and> step T h h' \<and>
              p_state (promises h' a) = REJECTED \<and> p_reason (promises h' a) = R \<and>
              p_value (promises h' a) = p_value (promises h a)"
proof -
  let ?f = "\<lambda>p. p\<lparr>p_reason := R, p_state := REJECTED, p_errbacks := None\<rparr>"
  let ?h1 = "upd_promise h a ?f"
  have fin: "finite T" using w by (simp add: wf_heap_def)
  have lt: "a < next_promise h" using w a by (simp add: wf_heap_def)
  have lo: "lists_ok T D (promises h a)" using w lt by (rule wf_lists)
  with pend obtain ebs where ebs: "p_errbacks (promises h a) = Some ebs" "list_all (fn_ok T D) ebs"
    by (auto simp: lists_ok_def)
  have w1: "wf_heap T D ?h1"
    by (intro wf_upd w) (simp_all add: lists_ok_def value_ok_def)
  have s1: "step T h ?h1" using a pend by (intro step_upd) simp
  have m: "Suc (mu T ?h1) \<le> mu T h" by (rule mu_settle[OF fin a pend]) simp
  have "D + 1 + mu T ?h1 * (D + 2) \<le> n"
    by (rule budget_settle[OF m budget_card[OF fin b]])
  from run_callbacks_wf[OF w1 ebs(2) this, of E R]
  obtain h' where r: "run_callbacks (call_fn n E) ?h1 ebs R = Some (h', Inr VNone)"
    and w': "wf_heap T D h'" and s': "step T ?h1 h'" by blast
  have "p_state (promises h' a) = REJECTED \<and> p_reason (promises h' a) = R \<and>
        p_value (promises h' a) = p_value (promises h a)"
    using step_settled[OF s', of a] lt by simp
  moreover have "reject (call_fn n E) h a R = Some (h', Inr VNone)"
    using pend ebs(1) r by (simp add: reject_def)
  ultimately show ?thesis using w' step_trans[OF s1 s'] by blast
qed

subsection \<open>Settling a settled promise\<close>

text \<open>
  C1, as stated: after a promise has been settled, any further \<^verbatim>\<open>fulfill\<close> or
  \<^verbatim>\<open>reject\<close> call raises.  This fails for \<^verbatim>\<open>fulfill\<close> with a pending promise
  as argument: promise 0 is fulfilled, and \<^verbatim>\<open>fulfill\<close> of it with the pending
  promise 1 returns normally, because the state is only asserted in \<^verbatim>\<open>_fulfill\<close>
  and \<^verbatim>\<open>reject\<close>, which that call does not reach.
\<close>

theorem fulfill_settled_with_pending_promise_returns:
  "p_state (promises fulfilled_and_pending 0) = FULFILLED \<and>
   p_state (promises fulfilled_and_pending 1) = PENDING \<and>
   outcome_of (fulfill (call_fn 3 ex_env) fulfilled_and_pending 0 (VPromise 1)) = Some (Inr VNone)"
  by (simp add: method_defs aux_defs example_defs)

lemma wf_settled_examples:
  "wf_heap {} 1 fulfilled_and_pending" "wf_heap {} 1 two_rejected"
  by (simp_all add: wf_heap_def lists_ok_def value_ok_def isPromise_def
      method_defs aux_defs example_defs less_Suc_eq)

text \<open>
  C1, amended: after a promise \<open>p\<close> has been settled, any further \<^verbatim>\<open>reject\<close> call,
  and any further \<^verbatim>\<open>fulfill\<close> call whose argument is not a thenable, raises
  \<^verbatim>\<open>AssertionError\<close> and leaves the whole store unchanged.  In a well-formed store,
  where \<open>p\<close> is allocated, the same holds for \<^verbatim>\<open>fulfill\<close> with another promise that
  is itself settled; and every further \<^verbatim>\<open>fulfill\<close> call, whatever its argument (a
  plain value, \<open>p\<close> itself, a pending or settled promise, a foreign thenable), returns
  or raises and leaves the state, the value and the reason of \<open>p\<close> unchanged: \<open>p\<close>
  makes at most one transition.  Only the raising is lost, and only for a pending
  promise or a foreign thenable as argument.
\<close>

theorem settled_promise_refuses_settlement:
  assumes "p_state (promises h p) \<noteq> PENDING"
  shows "reject call h p r = Some (h, Inl AssertionError) \<and>
         (\<not> isPromise h x \<longrightarrow> fulfill call h p x = Some (h, Inl AssertionError)) \<and>
         (wf_heap T D h \<and> p < next_promise h \<longrightarrow>
            (\<forall>b. x = VPromise b \<and> b \<noteq> p \<and> p_state (promises h b) \<noteq> PENDING \<longrightarrow>
                 fulfill (call_fn (Suc n) E) h p x = Some (h, Inl AssertionError)) \<and>
            (\<exists>h' r'. fulfill (call_fn (Suc n) E) h p x = Some (h', r') \<and>
                 p_state (promises h' p) = p_state (promises h p) \<and>
                 p_value (promises h' p) = p_value (promises h p) \<and>
                 p_reason (promises h' p) = p_reason (promises h p)))"
proof -
  have plain: "\<not> isPromise h y \<Longrightarrow> y \<noteq> VPromise p \<and> \<not> has_then h y" for y
    by (auto simp: isPromise_def)
  have 1: "reject c h p r = Some (h, Inl AssertionError)" for c r
    using assms by (simp add: reject_def raises_def)
  have 2: "fulfill c h p y = Some (h, Inl AssertionError)" if "\<not> isPromise h y" for c y
    using assms plain[OF that] that by (simp add: fulfill_def fulfill'_def raises_def)
  have 3: "fulfill (call_fn (Suc n) E) h p (VPromise b) = Some (h, Inl AssertionError)"
    if w: "wf_heap T D h" and b: "b \<noteq> p" "p_state (promises h b) \<noteq> PENDING" for b
  proof (cases "p_state (promises h b)")
    case PENDING
    with b show ?thesis by simp
  next
    case REJECTED
    with b assms show ?thesis
      by (simp add: fulfill_def isPromise_def promisify_def done'_def addCallback_def
          addErrback_def reject_def returns_def raises_def bind_res_def try_except_def)
  next
    case FULFILLED
    with wf_value[OF w, of b] have v: "\<not> isPromise h (p_value (promises h b))"
      by (simp add: value_ok_def)
    from FULFILLED b assms plain[of "p_value (promises h b)"] 2[OF v] v show ?thesis
      by (simp add: fulfill_def isPromise_def promisify_def done'_def addCallback_def
          reject_def returns_def raises_def bind_res_def try_except_def)
  qed
  have 4: "\<exists>h' r'. fulfill (call_fn (Suc n) E) h p x = Some (h', r') \<and>
                 p_state (promises h' p) = p_state (promises h p) \<and>
                 p_value (promises h' p) = p_value (promises h p) \<and>
                 p_reason (promises h' p) = p_reason (promises h p)"
    if w: "wf_heap T D h" and lt: "p < next_promise h"
  proof (cases "isPromise h x")
    case False
    from 2[OF False] show ?thesis by simp
  next
    case True
    show ?thesis
    proof (cases x)
      case (VPromise b)
      show ?thesis
      proof (cases "b = p")
        case True
        with VPromise show ?thesis by (simp add: fulfill_def raises_def)
      next
        case ne: False
        show ?thesis
        proof (cases "p_state (promises h b) = PENDING")
          case False
          from 3[OF w ne False] VPromise show ?thesis by simp
        next
          case True
          with ne VPromise assms show ?thesis
            by (auto simp: fulfill_def isPromise_def promisify_def done'_def addCallback_def
                addErrback_def reject_def returns_def raises_def bind_res_def try_except_def
                split: option.splits)
        qed
      qed
    next
      case (VForeign a)
      have ne: "p \<noteq> next_promise h" using lt by simp
      from VForeign True have "f_done (foreigns h a) \<or> f_then (foreigns h a)"
        by (simp add: isPromise_def)
      with VForeign ne assms show ?thesis
        by (auto simp: fulfill_def isPromise_def promisify_def done'_def addCallback_def
            addErrback_def reject_def returns_def raises_def bind_res_def try_except_def
            foreign_register_def new_promise_def fresh_promise_def upd_promise_def
            split: option.splits)
    qed (use True in \<open>simp_all add: isPromise_def\<close>)
  qed
  show ?thesis
    apply (intro conjI impI allI)
       apply (rule 1)
      apply (erule 2)
     apply (elim conjE)
     apply (simp only:)
     apply (erule 3; assumption)
    apply (elim conjE)
    apply (erule 4; assumption)
    done
qed

text \<open>
  On the store \<open>fulfilled_and_pending\<close> (promise 0 fulfilled with \<open>VInt 1\<close>, promise 1
  pending) and on \<open>two_rejected\<close> (both promises rejected).
\<close>

theorem settled_promise_refuses_settlement_witness:
  "p_state (promises fulfilled_and_pending 0) \<noteq> PENDING \<and>
   \<not> isPromise fulfilled_and_pending (VInt 5) \<and>
   reject (call_fn 3 ex_env) fulfilled_and_pending 0 (VInt 5)
     = Some (fulfilled_and_pending, Inl AssertionError) \<and>
   fulfill (call_fn 3 ex_env) fulfilled_and_pending 0 (VInt 5)
     = Some (fulfilled_and_pending, Inl AssertionError) \<and>
   wf_heap {} 1 fulfilled_and_pending \<and> (0::nat) < next_promise fulfilled_and_pending \<and>
   p_state (promises fulfilled_and_pending 1) = PENDING \<and>
   (\<exists>h' r'. fulfill (call_fn (Suc 2) ex_env) fulfilled_and_pending 0 (VPromise 1) = Some (h', r') \<and>
       p_state (promises h' 0) = FULFILLED \<and> p_value (promises h' 0) = VInt 1 \<and>
       p_reason (promises h' 0) = VNone) \<and>
   wf_heap {} 1 two_rejected \<and> (0::nat) < next_promise two_rejected \<and>
   p_state (promises two_rejected 0) \<noteq> PENDING \<and> p_state (promises two_rejected 1) \<noteq> PENDING \<and>
   fulfill (call_fn (Suc 2) ex_env) two_rejected 0 (VPromise 1)
     = Some (two_rejected, Inl AssertionError)"
proof -
  have st: "p_state (promises fulfilled_and_pending 0) \<noteq> PENDING"
    "p_state (promises fulfilled_and_pending 0) = FULFILLED"
    "p_value (promises fulfilled_and_pending 0) = VInt 1"
    "p_reason (promises fulfilled_and_pending 0) = VNone"
    "p_state (promises fulfilled_and_pending 1) = PENDING"
    "(0::nat) < next_promise fulfilled_and_pending"
    by (simp_all add: method_defs aux_defs example_defs)
  have sr: "p_state (promises two_rejected 0) \<noteq> PENDING"
    "p_state (promises two_rejected 1) \<noteq> PENDING" "(0::nat) < next_promise two_rejected"
    by (simp_all add: method_defs aux_defs example_defs)
  have np: "\<not> isPromise fulfilled_and_pending (VInt 5)"
    by (simp add: isPromise_def)
  have ne: "(1::nat) \<noteq> 0" by simp
  note t = settled_promise_refuses_settlement[where E = ex_env and n = 2 and T = "{}" and D = 1
      and call = "call_fn 3 ex_env" and r = "VInt 5"]
  from t[OF st(1), where x = "VInt 5"] np
  have a: "reject (call_fn 3 ex_env) fulfilled_and_pending 0 (VInt 5)
             = Some (fulfilled_and_pending, Inl AssertionError)"
    "fulfill (call_fn 3 ex_env) fulfilled_and_pending 0 (VInt 5)
             = Some (fulfilled_and_pending, Inl AssertionError)"
    by simp_all
  from t[OF st(1), where x = "VPromise 1"] wf_settled_examples(1) st
  have b: "\<exists>h' r'. fulfill (call_fn (Suc 2) ex_env) fulfilled_and_pending 0 (VPromise 1) = Some (h', r') \<and>
       p_state (promises h' 0) = FULFILLED \<and> p_value (promises h' 0) = VInt 1 \<and>
       p_reason (promises h' 0) = VNone"
    by simp
  from t[OF sr(1), where x = "VPromise 1"] wf_settled_examples(2) sr ne
  have c: "fulfill (call_fn (Suc 2) ex_env) two_rejected 0 (VPromise 1)
     = Some (two_rejected, Inl AssertionError)"
    by simp
  from a b c st sr np wf_settled_examples show ?thesis by simp
qed

subsection \<open>Fulfilling a promise with itself\<close>

text \<open>
  C2, as stated: \<^verbatim>\<open>p.fulfill(p)\<close> never raises to the caller and rejects \<open>p\<close>.
  On a store with one pending promise the call raises \<^verbatim>\<open>TypeError\<close> and the
  promise is still pending.
\<close>

theorem fulfill_self_raises_example:
  "outcome_of (fulfill (call_fn 3 ex_env) one_pending 0 (VPromise 0))
     = Some (Inl (TypeError ''Cannot resolve promise with itself.'')) \<and>
   p_state (promises (heap_of (fulfill (call_fn 3 ex_env) one_pending 0 (VPromise 0))) 0)
     = PENDING"
  by (simp add: method_defs aux_defs example_defs)

text \<open>
  C2, amended: for every promise \<open>p\<close>, \<^verbatim>\<open>p.fulfill(p)\<close> raises \<^verbatim>\<open>TypeError\<close> to
  the caller and leaves the store unchanged; in particular it does not reject \<open>p\<close>.
\<close>

theorem fulfill_self_raises:
  "fulfill call h p (VPromise p)
     = Some (h, Inl (TypeError ''Cannot resolve promise with itself.''))"
  by (simp add: fulfill_def raises_def)

subsection \<open>Errors of reactions\<close>

text \<open>
  C6 at the failing input: promise 0 is already fulfilled with \<open>VInt 1\<close>; the reaction
  \<open>UserFn 0\<close> raises \<open>UserError 7\<close> on it; \<^verbatim>\<open>addCallback\<close> calls the reaction at
  once, outside any \<^verbatim>\<open>try\<close>, and the error reaches the caller of
  \<^verbatim>\<open>addCallback\<close>.
\<close>

theorem addCallback_on_fulfilled_propagates_error:
  "p_state (promises fulfilled_and_pending 0) = FULFILLED \<and>
   ex_env 0 (VInt 1) = Inl (UserError 7) \<and>
   outcome_of (addCallback (call_fn 3 ex_env) fulfilled_and_pending 0 (VFun (UserFn 0)))
     = Some (Inl (UserError 7))"
  by (simp add: method_defs aux_defs example_defs numeral_3_eq_3)

subsection \<open>The sequence combinator\<close>

text \<open>
  C7 at the failing input: \<^verbatim>\<open>listPromise([])\<close>, the single-argument call with an
  empty list, returns a promise that is pending and has no reaction registered, on
  every store.  The test for emptiness comes before the single list argument is
  unpacked.
\<close>

theorem listPromise_of_empty_list_is_pending:
  "\<exists>h'. listPromise call h [VList []] = Some (h', Inr (next_promise h)) \<and>
        promises h' (next_promise h) = fresh_promise"
  by (simp add: method_defs aux_defs)

text \<open>The zero-argument call does return a promise fulfilled with the empty list.\<close>

lemma listPromise_no_arguments:
  "\<exists>h'. listPromise call h [] = Some (h', Inr (next_promise h)) \<and>
        p_state (promises h' (next_promise h)) = FULFILLED \<and>
        p_value (promises h' (next_promise h)) = VList []"
  by (simp add: method_defs aux_defs)

text \<open>
  C9 at the failing input: both inputs are already rejected when \<^verbatim>\<open>listPromise\<close>
  is called.  The first registration rejects the result at once; the second calls
  \<^verbatim>\<open>ret.reject\<close> again, directly from \<^verbatim>\<open>addErrback\<close>, and its
  \<^verbatim>\<open>AssertionError\<close> reaches the caller of \<^verbatim>\<open>listPromise\<close>.
\<close>

theorem listPromise_of_two_rejected_raises:
  "p_state (promises two_rejected 0) = REJECTED \<and>
   p_state (promises two_rejected 1) = REJECTED \<and>
   outcome_of (listPromise (call_fn 3 ex_env) two_rejected [VPromise 0, VPromise 1])
     = Some (Inl AssertionError)"
  by (simp add: method_defs aux_defs example_defs numeral_3_eq_3)

subsection \<open>Rejection\<close>

lemma wf_two_pending: "wf_heap {0, 1} 1 two_pending"
  by (simp add: wf_heap_def lists_ok_def value_ok_def two_pending_def one_pending_def
      new_promise_def empty_heap_def fresh_promise_def less_Suc_eq)

text \<open>
  C10: for every pending promise \<open>p\<close> of a well-formed store and every reason \<open>r\<close>,
  a promise or a thenable included, \<^verbatim>\<open>p.reject(r)\<close> returns (given fuel for the
  reactions of the promises it reaches) and leaves \<open>p\<close> rejected with reason exactly
  \<open>r\<close>; the value field is untouched.  No part of \<^verbatim>\<open>reject\<close> inspects \<open>r\<close>.
\<close>

theorem reject_stores_reason_verbatim:
  assumes "wf_heap T D h" and "p \<in> T" and "p_state (promises h p) = PENDING"
    and "card T * (D + 2) \<le> n"
  shows "\<exists>h'. reject (call_fn n E) h p r = Some (h', Inr VNone) \<and>
              p_state (promises h' p) = REJECTED \<and> p_reason (promises h' p) = r \<and>
              p_value (promises h' p) = p_value (promises h p)"
  using settle_reject[OF assms, of E r] by blast

theorem reject_stores_reason_verbatim_witness:
  "wf_heap {0, 1} 1 two_pending \<and> (0::nat) \<in> {0, 1} \<and>
   p_state (promises two_pending 0) = PENDING \<and> card {0::nat, 1} * (1 + 2) \<le> 6 \<and>
   (\<exists>h'. reject (call_fn 6 ex_env) two_pending 0 (VPromise 1) = Some (h', Inr VNone) \<and>
         p_state (promises h' 0) = REJECTED \<and> p_reason (promises h' 0) = VPromise 1 \<and>
         p_value (promises h' 0) = p_value (promises two_pending 0))"
proof -
  have st: "p_state (promises two_pending 0) = PENDING"
    by (simp add: two_pending_def one_pending_def new_promise_def empty_heap_def fresh_promise_def)
  have c: "card {0::nat, 1} * (1 + 2) \<le> 6" by simp
  have m: "(0::nat) \<in> {0, 1}" by simp
  from reject_stores_reason_verbatim[OF wf_two_pending m st c, of ex_env "VPromise 1"]
    wf_two_pending st
  show ?thesis by simp
qed

subsection \<open>Chaining with \<^verbatim>\<open>then\<close>\<close>

text \<open>
  \<^verbatim>\<open>p.then(s, f)\<close> on a settled promise \<open>p\<close> where neither \<open>s\<close> nor \<open>f\<close> is
  callable: the closure registered for the state of \<open>p\<close> runs at once and settles the
  returned promise the same way.
\<close>

lemma then_without_handlers_settled:
  assumes "p < next_promise h" and "\<not> isFunction s" and "\<not> isFunction f"
  shows "(p_state (promises h p) = FULFILLED \<and> \<not> isPromise h (p_value (promises h p)) \<longrightarrow>
           (\<exists>h'. then' (call_fn (Suc n) E) h p s f = Some (h', Inr (next_promise h)) \<and>
                 p_state (promises h' (next_promise h)) = FULFILLED \<and>
                 p_value (promises h' (next_promise h)) = p_value (promises h p))) \<and>
         (p_state (promises h p) = REJECTED \<longrightarrow>
           (\<exists>h'. then' (call_fn (Suc n) E) h p s f = Some (h', Inr (next_promise h)) \<and>
                 p_state (promises h' (next_promise h)) = REJECTED \<and>
                 p_reason (promises h' (next_promise h)) = p_reason (promises h p)))"
proof -
  let ?h1 = "fst (new_promise h)"
  let ?v = "p_value (promises h p)"
  have ne: "p \<noteq> next_promise h" using assms(1) by simp
  have flags: "isPromise ?h1 v = isPromise h v" for v
    by (rule isPromise_flags) (simp add: same_flags_def new_promise_def)
  have np: "\<not> isPromise h v \<Longrightarrow> v \<noteq> VPromise a \<and> \<not> has_then ?h1 v" for v a
    using flags[of v] by (auto simp: isPromise_def)
  have caf: "callAndFulfill c h2 ret s v = try_except (fulfill c h2 ret v) (\<lambda>h2 e. reject c h2 ret (VExc e))"
    for c h2 ret v
    using assms(2) by (cases s) (simp_all add: callAndFulfill_def)
  have car: "callAndReject c h2 ret f v = try_except (reject c h2 ret v) (\<lambda>h2 e. reject c h2 ret (VExc e))"
    for c h2 ret v
    using assms(3) by (cases f) (simp_all add: callAndReject_def)
  show ?thesis
  proof (intro conjI impI)
    assume a: "p_state (promises h p) = FULFILLED \<and> \<not> isPromise h (p_value (promises h p))"
    then show "\<exists>h'. then' (call_fn (Suc n) E) h p s f = Some (h', Inr (next_promise h)) \<and>
                 p_state (promises h' (next_promise h)) = FULFILLED \<and>
                 p_value (promises h' (next_promise h)) = p_value (promises h p)"
      using ne np[of ?v "next_promise h"] flags[of ?v]
      by (simp add: then'_def done'_def addCallback_def addErrback_def caf fulfill_def fulfill'_def
          new_promise_def fresh_promise_def upd_promise_def
          returns_def raises_def bind_res_def try_except_def)
  next
    assume a: "p_state (promises h p) = REJECTED"
    then show "\<exists>h'. then' (call_fn (Suc n) E) h p s f = Some (h', Inr (next_promise h)) \<and>
                 p_state (promises h' (next_promise h)) = REJECTED \<and>
                 p_reason (promises h' (next_promise h)) = p_reason (promises h p)"
      using ne
      by (simp add: then'_def done'_def addCallback_def addErrback_def car reject_def
          new_promise_def fresh_promise_def upd_promise_def
          returns_def raises_def bind_res_def try_except_def)
  qed
qed


subsection \<open>Adopting a thenable\<close>

lemma upd_promise_twice:
  "upd_promise (upd_promise h a f) a g = upd_promise h a (\<lambda>p. g (f p))"
  by (simp add: upd_promise_def)

lemma has_attr_upd [simp]:
  "has_then (upd_promise h q f) v = has_then h v"
  "has_done (upd_promise h q f) v = has_done h v"
  "isPromise (upd_promise h q f) v = isPromise h v"
  by (cases v; simp add: isPromise_def)+

lemma not_isPromise_plain: "\<not> isPromise h v \<Longrightarrow> v \<noteq> VPromise a \<and> \<not> has_then h v"
  by (auto simp: isPromise_def)


lemma budget_link:
  assumes "finite T" "(card T + 1) * (D + 2) + 1 \<le> n"
  shows "D + 1 + mu T h * (D + 2) \<le> n"
proof -
  have "mu T h * (D + 2) \<le> card T * (D + 2)"
    using mu_le_card[OF assms(1)] by (rule mult_le_mono1)
  with assms(2) show ?thesis by simp
qed









lemmas example_defs2 =
  pending_and_fulfilled_def pending_and_rejected_def with_foreign_def three_pending_def
  chain_of_three_def


lemma wf_examples:
  "wf_heap {} 1 two_pending" "wf_heap {} 1 pending_and_fulfilled"
  "wf_heap {} 1 pending_and_rejected" "wf_heap {} 1 with_foreign"
  by (simp_all add: wf_heap_def lists_ok_def value_ok_def isPromise_def
      method_defs aux_defs example_defs example_defs2 less_Suc_eq)


text \<open>
  A chain of three promises: \<^verbatim>\<open>p0.fulfill(p1); p1.fulfill(p2); p2.fulfill(9)\<close>
  leaves all three fulfilled with 9.
\<close>

lemma chain_of_three_promises:
  "map (\<lambda>a. (p_state (promises chain_of_three a), p_value (promises chain_of_three a))) [0, 1, 2]
     = [(FULFILLED, VInt 9), (FULFILLED, VInt 9), (FULFILLED, VInt 9)]"
  by (simp add: method_defs aux_defs example_defs example_defs2 numeral_eq_Suc)

subsection \<open>The sequence combinator on inputs that are fulfilled later\<close>

lemma run_user_callbacks:
  "list_all is_user us \<Longrightarrow> run_callbacks (call_fn (Suc n) E) h us v = Some (h, Inr VNone)"
proof (induction us)
  case Nil
  then show ?case by (simp add: returns_def)
next
  case (Cons c cs)
  then show ?case by (cases c) simp_all
qed

lemma call_fn_HandleSuccess:
  "call_fn (Suc n) E h (HandleSuccess c ps r) v = handleSuccess (call_fn n E) h c ps r v"
  by simp

lemma those_map_Some: "those (map (\<lambda>x. Some (f x)) xs) = Some (map f xs)"
  by (induction xs) simp_all

lemma attr_values: "map (attr_value h) (map VPromise ps) = map (\<lambda>p. Some (p_value (promises h p))) ps"
  by simp

lemma handleSuccess_last:
  assumes "latches h cnt = 1" "p_state (promises h ret) = PENDING"
    "p_callbacks (promises h ret) = Some []"
  shows "\<exists>h'. handleSuccess call h cnt (map VPromise ps) ret v = Some (h', Inr VNone) \<and>
          foreigns h' = foreigns h \<and>
          p_state (promises h' ret) = FULFILLED \<and>
          p_value (promises h' ret) = VList (map (\<lambda>p. p_value (promises h p)) ps)"
proof -
  let ?h2 = "h\<lparr>latches := (latches h)(cnt := 0)\<rparr>"
  let ?vs = "map (\<lambda>p. p_value (promises h p)) ps"
  have d: "dec h cnt = (?h2, Inr 0)" using assms(1) by (simp add: dec_def)
  have t: "those (map (attr_value ?h2) (map VPromise ps)) = Some ?vs"
    by (simp add: those_map_Some[of "\<lambda>p. p_value (promises h p)" ps] comp_def)
  have f: "fulfill call ?h2 ret (VList ?vs) =
      Some (upd_promise ?h2 ret (\<lambda>p. p\<lparr>p_value := VList ?vs, p_state := FULFILLED, p_callbacks := None\<rparr>),
            Inr VNone)"
    using assms(2,3) by (simp add: fulfill_def fulfill'_def isPromise_def returns_def)
  show ?thesis
    unfolding handleSuccess_def d using t f by simp
qed

lemma handleSuccess_not_last:
  assumes "latches h cnt = int k" "1 < k"
  shows "handleSuccess call h cnt all ret v
           = Some (h\<lparr>latches := (latches h)(cnt := int k - 1)\<rparr>, Inr VNone)"
  using assms by (simp add: handleSuccess_def dec_def returns_def)

lemma await_step:
  assumes a: "awaiting h cnt ps ret S vals" and q: "q \<in> S" and v: "\<not> isPromise h v"
  shows "\<exists>h'. fulfill (call_fn (Suc n) E) h q v = Some (h', Inr VNone) \<and>
           foreigns h' = foreigns h \<and>
           (if S = {q}
            then p_state (promises h' ret) = FULFILLED \<and>
                 p_value (promises h' ret) = VList (map (vals(q := v)) ps)
            else awaiting h' cnt ps ret (S - {q}) (vals(q := v)))"
proof -
  let ?hs = "HandleSuccess cnt (map VPromise ps) ret"
  let ?h1 = "upd_promise h q (\<lambda>p. p\<lparr>p_value := v, p_state := FULFILLED, p_callbacks := None\<rparr>)"
  from a q obtain us where us: "p_state (promises h q) = PENDING"
      "p_callbacks (promises h q) = Some (us @ [?hs])" "list_all is_user us"
    by (auto simp: awaiting_def)
  have fin: "finite S" and sub: "S \<subseteq> set ps" and rn: "ret \<notin> set ps"
    and lat: "latches h cnt = int (card S)"
    and rp: "p_state (promises h ret) = PENDING" "p_callbacks (promises h ret) = Some []"
    using a by (simp_all add: awaiting_def)
  have qr: "q \<noteq> ret" using q sub rn by auto
  have cpos: "0 < card S" using q fin by (auto simp: card_gt_0_iff)
  have run: "run_callbacks (call_fn (Suc n) E) ?h1 (us @ [?hs]) v
               = (case handleSuccess (call_fn n E) ?h1 cnt (map VPromise ps) ret v of
                    None \<Rightarrow> None | Some (h', _) \<Rightarrow> Some (h', Inr VNone))"
    by (simp add: run_callbacks_append run_user_callbacks[OF us(3)] returns_def
        call_fn_HandleSuccess del: call_fn.simps split: option.splits)
  have ful: "fulfill (call_fn (Suc n) E) h q v = run_callbacks (call_fn (Suc n) E) ?h1 (us @ [?hs]) v"
    using us v not_isPromise_plain[OF v, of q]
    by (simp add: fulfill_def fulfill'_def del: call_fn.simps)
  have others: "promises ?h1 p = promises h p" if "p \<noteq> q" for p using that by simp
  show ?thesis
  proof (cases "S = {q}")
    case True
    then have l1: "latches ?h1 cnt = 1" using lat by simp
    have r1: "p_state (promises ?h1 ret) = PENDING" "p_callbacks (promises ?h1 ret) = Some []"
      using rp qr by simp_all
    from handleSuccess_last[OF l1 r1, of "call_fn n E" ps v]
    obtain h' where h': "handleSuccess (call_fn n E) ?h1 cnt (map VPromise ps) ret v = Some (h', Inr VNone)"
      "foreigns h' = foreigns ?h1" "p_state (promises h' ret) = FULFILLED"
      "p_value (promises h' ret) = VList (map (\<lambda>p. p_value (promises ?h1 p)) ps)" by blast
    have "p_value (promises ?h1 p) = (vals(q := v)) p" if "p \<in> set ps" for p
    proof (cases "p = q")
      case True
      then show ?thesis by simp
    next
      case False
      with that \<open>S = {q}\<close> have "p \<in> set ps - S" by simp
      with a have "p_value (promises h p) = vals p" by (simp add: awaiting_def)
      with False show ?thesis by simp
    qed
    then have "map (\<lambda>p. p_value (promises ?h1 p)) ps = map (vals(q := v)) ps"
      by (intro map_cong) simp_all
    with h' True show ?thesis by (simp add: ful run del: call_fn.simps)
  next
    case False
    with q fin have k: "1 < card S"
      by (metis One_nat_def Suc_lessI card_gt_0_iff card_1_singletonE empty_iff singletonD)
    let ?h2 = "?h1\<lparr>latches := (latches ?h1)(cnt := int (card S) - 1)\<rparr>"
    have hs: "handleSuccess (call_fn n E) ?h1 cnt (map VPromise ps) ret v = Some (?h2, Inr VNone)"
      by (rule handleSuccess_not_last[OF _ k]) (simp add: lat)
    have card: "int (card (S - {q})) = int (card S) - 1"
      using q fin cpos by (simp add: card_Diff_singleton)
    have aw: "awaiting ?h2 cnt ps ret (S - {q}) (vals(q := v))"
      unfolding awaiting_def
    proof (intro conjI ballI)
      show "latches ?h2 cnt = int (card (S - {q}))" using card by simp
      show "finite (S - {q})" using fin by simp
      show "S - {q} \<subseteq> set ps" using sub by auto
      show "ret \<notin> set ps" by (rule rn)
      show "p_state (promises ?h2 ret) = PENDING" using rp qr by simp
      show "p_callbacks (promises ?h2 ret) = Some []" using rp qr by simp
    next
      fix x assume x: "x \<in> S - {q}"
      then have "x \<in> S" "x \<noteq> q" by auto
      with a show "p_state (promises ?h2 x) = PENDING" by (simp add: awaiting_def)
      from a \<open>x \<in> S\<close> \<open>x \<noteq> q\<close>
      show "\<exists>us. p_callbacks (promises ?h2 x) = Some (us @ [?hs]) \<and> list_all is_user us"
        by (simp add: awaiting_def)
    next
      fix x assume x: "x \<in> set ps - (S - {q})"
      show "p_state (promises ?h2 x) = FULFILLED"
        using a x by (cases "x = q") (simp_all add: awaiting_def)
      show "p_value (promises ?h2 x) = (vals(q := v)) x"
        using a x by (cases "x = q") (simp_all add: awaiting_def)
    qed
    have "foreigns ?h2 = foreigns h" by simp
    with aw hs False show ?thesis by (simp add: ful run del: call_fn.simps)
  qed
qed


lemma isPromise_foreigns: "foreigns h' = foreigns h \<Longrightarrow> isPromise h' v = isPromise h v"
  by (rule isPromise_flags) (simp add: same_flags_def)

lemma fulfill_all_awaiting:
  assumes "distinct (map fst pvs)" "pvs \<noteq> []"
    and "awaiting h cnt ps ret (set (map fst pvs)) vals"
    and "\<forall>(p, v)\<in>set pvs. \<not> isPromise h v"
  shows "\<exists>h'. fulfill_all (call_fn (Suc n) E) h pvs = Some (h', Inr VNone) \<and>
           p_state (promises h' ret) = FULFILLED \<and>
           p_value (promises h' ret)
             = VList (map (\<lambda>p. case map_of pvs p of Some v \<Rightarrow> v | None \<Rightarrow> vals p) ps)"
  using assms
proof (induction pvs arbitrary: h vals)
  case Nil
  then show ?case by simp
next
  case (Cons qv rest)
  obtain q v where qv: "qv = (q, v)" by (cases qv)
  have q: "q \<in> set (map fst (qv # rest))" using qv by simp
  have v: "\<not> isPromise h v" using Cons.prems(4) qv by simp
  have qn: "q \<notin> set (map fst rest)" and dr: "distinct (map fst rest)"
    using Cons.prems(1) qv by simp_all
  from await_step[OF Cons.prems(3) q v, of n E]
  obtain h1 where h1: "fulfill (call_fn (Suc n) E) h q v = Some (h1, Inr VNone)"
    "foreigns h1 = foreigns h"
    and alt: "if set (map fst (qv # rest)) = {q}
            then p_state (promises h1 ret) = FULFILLED \<and>
                 p_value (promises h1 ret) = VList (map (vals(q := v)) ps)
            else awaiting h1 cnt ps ret (set (map fst (qv # rest)) - {q}) (vals(q := v))"
    by blast
  have fa: "fulfill_all (call_fn (Suc n) E) h (qv # rest) = fulfill_all (call_fn (Suc n) E) h1 rest"
    using h1(1) qv by (simp add: bind_res_def del: call_fn.simps)
  show ?case
  proof (cases "rest = []")
    case True
    have "(\<lambda>p. case map_of [(q, v)] p of Some v \<Rightarrow> v | None \<Rightarrow> vals p) = vals(q := v)"
      by (rule ext) simp
    with True alt qv fa show ?thesis by (simp add: returns_def del: call_fn.simps)
  next
    case False
    then obtain x where "x \<in> set (map fst rest)" by (cases rest) auto
    with qn have ne: "set (map fst (qv # rest)) \<noteq> {q}" using qv by auto
    have eq: "set (map fst (qv # rest)) - {q} = set (map fst rest)" using qn qv by auto
    from alt have "awaiting h1 cnt ps ret (set (map fst (qv # rest)) - {q}) (vals(q := v))"
      by (simp only: if_not_P[OF ne])
    then have aw: "awaiting h1 cnt ps ret (set (map fst rest)) (vals(q := v))"
      by (simp only: eq)
    have pl: "\<forall>(p, v)\<in>set rest. \<not> isPromise h1 v"
      using Cons.prems(4) by (auto simp: isPromise_foreigns[OF h1(2)])
    from Cons.IH[OF dr False aw pl]
    obtain h' where h': "fulfill_all (call_fn (Suc n) E) h1 rest = Some (h', Inr VNone)"
      "p_state (promises h' ret) = FULFILLED"
      "p_value (promises h' ret)
         = VList (map (\<lambda>p. case map_of rest p of Some v \<Rightarrow> v | None \<Rightarrow> (vals(q := v)) p) ps)"
      by blast
    have "map_of rest q = None" using qn by (simp add: map_of_eq_None_iff)
    then have "(\<lambda>p. case map_of rest p of Some v \<Rightarrow> v | None \<Rightarrow> (vals(q := v)) p)
             = (\<lambda>p. case map_of (qv # rest) p of Some v \<Rightarrow> v | None \<Rightarrow> vals p)"
      using qv by (intro ext) (auto split: option.splits)
    with h' fa show ?thesis by simp
  qed
qed

lemma listPromise_loop_registers:
  assumes "distinct qs"
    and "\<forall>q\<in>set qs. p_state (promises h q) = PENDING \<and>
           (\<exists>us es. p_callbacks (promises h q) = Some us \<and> list_all is_user us \<and>
                    p_errbacks (promises h q) = Some es)"
  shows "\<exists>h'. listPromise_loop call h cnt all ret (map VPromise qs) = Some (h', Inr VNone) \<and>
           latches h' = latches h \<and> next_promise h' = next_promise h \<and>
           foreigns h' = foreigns h \<and>
           (\<forall>a. a \<notin> set qs \<longrightarrow> promises h' a = promises h a) \<and>
           (\<forall>q\<in>set qs. p_state (promises h' q) = PENDING \<and>
              (\<exists>us. p_callbacks (promises h' q) = Some (us @ [HandleSuccess cnt all ret]) \<and>
                    list_all is_user us))"
  using assms
proof (induction qs arbitrary: h)
  case Nil
  then show ?case by (simp add: returns_def)
next
  case (Cons q qs)
  from Cons.prems(2) obtain us es where q: "p_state (promises h q) = PENDING"
    "p_callbacks (promises h q) = Some us" "list_all is_user us"
    "p_errbacks (promises h q) = Some es" by auto
  let ?h1 = "upd_promise h q (\<lambda>p. p\<lparr>p_callbacks := Some (us @ [HandleSuccess cnt all ret]),
                                        p_errbacks := Some (es @ [Reject ret])\<rparr>)"
  have reg: "bind_res (promisify h (VPromise q))
               (\<lambda>h1 q. done' call h1 q (VFun (HandleSuccess cnt all ret)) (VFun (Reject ret)))
             = Some (?h1, Inr VNone)"
    using q
    by (simp add: promisify_def done'_def addCallback_def addErrback_def
        upd_promise_twice returns_def bind_res_def)
  have step: "listPromise_loop call h cnt all ret (map VPromise (q # qs))
                = listPromise_loop call ?h1 cnt all ret (map VPromise qs)"
    using reg by (simp add: isPromise_def bind_res_def)
  have qn: "q \<notin> set qs" and d: "distinct qs" using Cons.prems(1) by simp_all
  have pre: "\<forall>x\<in>set qs. p_state (promises ?h1 x) = PENDING \<and>
           (\<exists>us es. p_callbacks (promises ?h1 x) = Some us \<and> list_all is_user us \<and>
                    p_errbacks (promises ?h1 x) = Some es)"
    using Cons.prems(2) qn by auto
  from Cons.IH[OF d pre]
  obtain h' where h': "listPromise_loop call ?h1 cnt all ret (map VPromise qs) = Some (h', Inr VNone)"
    "latches h' = latches ?h1" "next_promise h' = next_promise ?h1" "foreigns h' = foreigns ?h1"
    "\<forall>a. a \<notin> set qs \<longrightarrow> promises h' a = promises ?h1 a"
    "\<forall>x\<in>set qs. p_state (promises h' x) = PENDING \<and>
              (\<exists>us. p_callbacks (promises h' x) = Some (us @ [HandleSuccess cnt all ret]) \<and>
                    list_all is_user us)"
    by blast
  have hq: "promises h' q = promises ?h1 q" using h'(5) qn by simp
  have "p_state (promises h' q) = PENDING \<and>
        (\<exists>us. p_callbacks (promises h' q) = Some (us @ [HandleSuccess cnt all ret]) \<and>
              list_all is_user us)"
    using q hq by simp
  with h' step show ?case by (intro exI[of _ h']) simp
qed

lemma unpack_promises:
  "(case map VPromise ps of [VList xs] \<Rightarrow> xs | _ \<Rightarrow> map VPromise ps) = map VPromise ps"
  by (cases ps; simp split: list.splits)

text \<open>
  Inputs that are instances of \<^verbatim>\<open>Promise\<close>: distinct pending promises whose
  reactions so far are user functions.  \<^verbatim>\<open>listPromise\<close>, called with the promises
  as arguments or with one list of them, returns a pending promise; after the inputs
  have been fulfilled with plain values, in any order, the result is fulfilled with
  the list of their values in the order of the inputs.
\<close>

lemma listPromise_fulfills_in_input_order:
  assumes "distinct ps" and "ps \<noteq> []"
    and "\<forall>p\<in>set ps. p < next_promise h \<and> p_state (promises h p) = PENDING \<and>
           (\<exists>us es. p_callbacks (promises h p) = Some us \<and> list_all is_user us \<and>
                    p_errbacks (promises h p) = Some es)"
    and "distinct (map fst pvs)" and "set (map fst pvs) = set ps"
    and "\<forall>(p, v)\<in>set pvs. \<not> isPromise h v"
    and "args = map VPromise ps \<or> args = [VList (map VPromise ps)]"
  shows "\<exists>h1 h2. listPromise (call_fn (Suc n) E) h args = Some (h1, Inr (next_promise h)) \<and>
           p_state (promises h1 (next_promise h)) = PENDING \<and>
           fulfill_all (call_fn (Suc n) E) h1 pvs = Some (h2, Inr VNone) \<and>
           p_state (promises h2 (next_promise h)) = FULFILLED \<and>
           p_value (promises h2 (next_promise h)) = VList (map (\<lambda>p. the (map_of pvs p)) ps)"
proof -
  let ?ret = "next_promise h"
  let ?cnt = "next_latch h"
  let ?all = "map VPromise ps"
  let ?h0 = "(fst (new_promise h))\<lparr>latches := (latches h)(?cnt := int (length ps)),
                                   next_latch := Suc ?cnt\<rparr>"
  have rn: "?ret \<notin> set ps" using assms(3) by auto
  have pre: "\<forall>q\<in>set ps. p_state (promises ?h0 q) = PENDING \<and>
           (\<exists>us es. p_callbacks (promises ?h0 q) = Some us \<and> list_all is_user us \<and>
                    p_errbacks (promises ?h0 q) = Some es)"
    using assms(3) by (auto simp: new_promise_def)
  from listPromise_loop_registers[OF assms(1) pre, of "call_fn (Suc n) E" ?cnt ?all ?ret]
  obtain h1 where h1: "listPromise_loop (call_fn (Suc n) E) ?h0 ?cnt ?all ?ret ?all = Some (h1, Inr VNone)"
    "latches h1 = latches ?h0" "next_promise h1 = next_promise ?h0" "foreigns h1 = foreigns ?h0"
    "\<forall>a. a \<notin> set ps \<longrightarrow> promises h1 a = promises ?h0 a"
    "\<forall>q\<in>set ps. p_state (promises h1 q) = PENDING \<and>
              (\<exists>us. p_callbacks (promises h1 q) = Some (us @ [HandleSuccess ?cnt ?all ?ret]) \<and>
                    list_all is_user us)"
    by blast
  have lp: "listPromise (call_fn (Suc n) E) h args = Some (h1, Inr ?ret)"
  proof -
    have "(case args of [VList xs] \<Rightarrow> xs | _ \<Rightarrow> args) = ?all"
      using assms(7) unpack_promises[of ps] by auto
    moreover have "length args \<noteq> 0" using assms(2,7) by auto
    ultimately show ?thesis
      using h1(1)
      by (simp add: listPromise_def new_latch_def new_promise_def bind_res_def returns_def
          del: call_fn.simps)
  qed
  have r1: "promises h1 ?ret = fresh_promise"
    using h1(5) rn by (simp add: new_promise_def)
  have aw: "awaiting h1 ?cnt ps ?ret (set (map fst pvs)) (\<lambda>_. VNone)"
    unfolding awaiting_def assms(5)
    using h1(2,6) rn r1 assms(1) by (simp add: distinct_card fresh_promise_def)
  have fl: "foreigns h1 = foreigns h" using h1(4) by (simp add: new_promise_def)
  have pl: "\<forall>(p, v)\<in>set pvs. \<not> isPromise h1 v"
    using assms(6) by (simp add: isPromise_foreigns[OF fl])
  have ne: "pvs \<noteq> []" using assms(2,5) by auto
  from fulfill_all_awaiting[OF assms(4) ne aw pl, of n E]
  obtain h2 where h2: "fulfill_all (call_fn (Suc n) E) h1 pvs = Some (h2, Inr VNone)"
    "p_state (promises h2 ?ret) = FULFILLED"
    "p_value (promises h2 ?ret)
       = VList (map (\<lambda>p. case map_of pvs p of Some v \<Rightarrow> v | None \<Rightarrow> VNone) ps)"
    by blast
  have "(case map_of pvs p of Some v \<Rightarrow> v | None \<Rightarrow> VNone) = the (map_of pvs p)"
    if "p \<in> set ps" for p
  proof -
    from that assms(5) have "p \<in> fst ` set pvs" by simp
    then obtain v where "map_of pvs p = Some v"
      by (metis map_of_eq_None_iff not_Some_eq)
    then show ?thesis by simp
  qed
  then have "map (\<lambda>p. case map_of pvs p of Some v \<Rightarrow> v | None \<Rightarrow> VNone) ps
           = map (\<lambda>p. the (map_of pvs p)) ps"
    by (intro map_cong) simp_all
  with h2 lp r1 show ?thesis by (simp add: fresh_promise_def)
qed

text \<open>
  On two pending promises 0 and 1: promise 1 is fulfilled first, with 20, then
  promise 0 with 10, and the result is fulfilled with \<open>[10, 20]\<close>.
\<close>

lemma listPromise_fulfills_in_input_order_example:
  "distinct [0::nat, 1] \<and> [0::nat, 1] \<noteq> [] \<and>
   (0::nat) < next_promise two_pending \<and> (1::nat) < next_promise two_pending \<and>
   promises two_pending 0 = fresh_promise \<and> promises two_pending 1 = fresh_promise \<and>
   distinct (map fst [(1::nat, VInt 20), (0, VInt 10)]) \<and>
   set (map fst [(1::nat, VInt 20), (0, VInt 10)]) = set [0, 1] \<and>
   \<not> isPromise two_pending (VInt 20) \<and> \<not> isPromise two_pending (VInt 10) \<and>
   (\<exists>h1 h2. listPromise (call_fn (Suc 0) ex_env) two_pending (map VPromise [0, 1])
               = Some (h1, Inr (next_promise two_pending)) \<and>
       p_state (promises h1 (next_promise two_pending)) = PENDING \<and>
       fulfill_all (call_fn (Suc 0) ex_env) h1 [(1, VInt 20), (0, VInt 10)] = Some (h2, Inr VNone) \<and>
       p_state (promises h2 (next_promise two_pending)) = FULFILLED \<and>
       p_value (promises h2 (next_promise two_pending)) = VList [VInt 10, VInt 20])"
proof -
  have a1: "distinct [0::nat, 1]" and a2: "[0::nat, 1] \<noteq> []" by simp_all
  have f: "(0::nat) < next_promise two_pending" "(1::nat) < next_promise two_pending"
    "promises two_pending 0 = fresh_promise" "promises two_pending 1 = fresh_promise"
    by (simp_all add: aux_defs example_defs)
  have a3: "\<forall>p\<in>set [0::nat, 1]. p < next_promise two_pending \<and>
       p_state (promises two_pending p) = PENDING \<and>
       (\<exists>us es. p_callbacks (promises two_pending p) = Some us \<and> list_all is_user us \<and>
                p_errbacks (promises two_pending p) = Some es)"
    using f by (simp add: fresh_promise_def)
  have a4: "distinct (map fst [(1::nat, VInt 20), (0, VInt 10)])" by simp
  have a5: "set (map fst [(1::nat, VInt 20), (0, VInt 10)]) = set [0, 1]" by auto
  have np: "\<not> isPromise two_pending (VInt 20)" "\<not> isPromise two_pending (VInt 10)"
    by (simp_all add: isPromise_def)
  then have a6: "\<forall>(p, v)\<in>set [(1::nat, VInt 20), (0, VInt 10)]. \<not> isPromise two_pending v"
    by simp
  have a7: "map VPromise [0, 1] = map VPromise [0::nat, 1] \<or>
            map VPromise [0, 1] = [VList (map VPromise [0::nat, 1])]" by simp
  from listPromise_fulfills_in_input_order[OF a1 a2 a3 a4 a5 a6 a7, of 0 ex_env]
    a1 a2 f a4 a5 np
  show ?thesis by simp
qed

text \<open>
  The inputs may as well be fulfilled already: on three promises fulfilled with 1, 2
  and 3 the result is fulfilled with \<open>[1, 2, 3]\<close> when \<^verbatim>\<open>listPromise\<close> returns.
\<close>

lemma listPromise_of_fulfilled_inputs:
  "map_option snd (listPromise (call_fn 3 ex_env) three_fulfilled [VPromise 0, VPromise 1, VPromise 2])
     = Some (Inr 3) \<and>
   (let h = heap_of (listPromise (call_fn 3 ex_env) three_fulfilled [VPromise 0, VPromise 1, VPromise 2])
    in p_state (promises h 3) = FULFILLED \<and>
       p_value (promises h 3) = VList [VInt 1, VInt 2, VInt 3])"
  by (simp add: method_defs aux_defs example_defs three_fulfilled_def numeral_eq_Suc)

subsection \<open>The sequence combinator on a foreign thenable\<close>

text \<open>
  C8 at the failing input: the single input is a foreign thenable, which
  \<^verbatim>\<open>listPromise\<close> accepts (\<^verbatim>\<open>assert _isPromise(p)\<close>) and adapts with
  \<^verbatim>\<open>_promisify\<close> for the registration.  The call returns a pending promise, the latch
  stands at 1, and the thenable has been handed \<^verbatim>\<open>fulfill\<close> and \<^verbatim>\<open>reject\<close> of the
  adapted promise.  When the thenable fulfils, that is when it calls the \<^verbatim>\<open>fulfill\<close> it
  was handed with a plain value \<open>V\<close>, the adapted promise is fulfilled with \<open>V\<close> and
  \<^verbatim>\<open>handleSuccess\<close> brings the latch to 0, but then reads \<^verbatim>\<open>p.value\<close> on the
  thenable itself instead of the adapted promise: this raises \<^verbatim>\<open>AttributeError\<close>, which
  the dispatch loop drops.  The result is left pending with no reaction registered on it,
  and the latch cannot be decremented again, so the result is never fulfilled.
\<close>

theorem listPromise_of_thenable_stays_pending:
  assumes "f_done (foreigns h a) \<or> f_then (foreigns h a)" and "f_raises (foreigns h a) = None"
    and "\<not> isPromise h V"
  shows "\<exists>h1. listPromise call h [VForeign a] = Some (h1, Inr (next_promise h)) \<and>
           p_state (promises h1 (next_promise h)) = PENDING \<and>
           latches h1 (next_latch h) = 1 \<and>
           f_registered (foreigns h1 a) = f_registered (foreigns h a) @
             [(VFun (Fulfill (Suc (next_promise h))), VFun (Reject (Suc (next_promise h))))] \<and>
           p_callbacks (promises h1 (Suc (next_promise h)))
             = Some [HandleSuccess (next_latch h) [VForeign a] (next_promise h)] \<and>
           (\<exists>h2. call_fn (Suc (Suc (Suc n))) E h1 (Fulfill (Suc (next_promise h))) V
                    = Some (h2, Inr VNone) \<and>
                 p_state (promises h2 (Suc (next_promise h))) = FULFILLED \<and>
                 p_value (promises h2 (Suc (next_promise h))) = V \<and>
                 latches h2 (next_latch h) = 0 \<and>
                 promises h2 (next_promise h) = fresh_promise \<and>
                 call_fn (Suc (Suc n)) E
                    (upd_promise h1 (Suc (next_promise h))
                       (\<lambda>p. p\<lparr>p_value := V, p_state := FULFILLED, p_callbacks := None\<rparr>))
                    (HandleSuccess (next_latch h) [VForeign a] (next_promise h)) V
                  = Some (h2, Inl (AttributeError ''value'')))"
proof -
  let ?ret = "next_promise h" and ?q = "Suc (next_promise h)" and ?c = "next_latch h"
  let ?hs = "HandleSuccess ?c [VForeign a] ?ret"
  have ip: "isPromise h (VForeign a)" using assms(1) by (auto simp: isPromise_def)
  obtain h1 where l: "listPromise call h [VForeign a] = Some (h1, Inr ?ret)"
    and p1: "promises h1 ?ret = fresh_promise"
      "promises h1 ?q = fresh_promise\<lparr>p_callbacks := Some [?hs], p_errbacks := Some [Reject ?ret]\<rparr>"
    and l1: "latches h1 ?c = 1"
    and f1: "f_registered (foreigns h1 a) = f_registered (foreigns h a) @
               [(VFun (Fulfill ?q), VFun (Reject ?q))]"
    and sf: "same_flags h h1"
    using assms(1,2) ip
    by (auto simp: listPromise_def new_latch_def new_promise_def same_flags_def
        promisify_def foreign_register_def done'_def addCallback_def addErrback_def
        isPromise_def fresh_promise_def upd_promise_def returns_def raises_def bind_res_def)
  have np: "\<not> isPromise h1 V" using assms(3) isPromise_flags[OF sf] by simp
  then have plain: "V \<noteq> VPromise ?q \<and> \<not> has_then h1 V" by (auto simp: isPromise_def)
  let ?h1' = "upd_promise h1 ?q (\<lambda>p. p\<lparr>p_value := V, p_state := FULFILLED, p_callbacks := None\<rparr>)"
  let ?h2 = "?h1'\<lparr>latches := (latches ?h1')(?c := 0)\<rparr>"
  have hs: "call_fn (Suc (Suc n)) E ?h1' ?hs V = Some (?h2, Inl (AttributeError ''value''))"
    using l1 by (simp add: handleSuccess_def dec_def raises_def)
  have fu: "call_fn (Suc (Suc (Suc n))) E h1 (Fulfill ?q) V = Some (?h2, Inr VNone)"
    using np plain p1 hs
    by (simp add: fulfill_def fulfill'_def fresh_promise_def returns_def del: call_fn.simps(2))
      (simp add: fulfill_def fulfill'_def fresh_promise_def returns_def)
  have r: "p_state (promises ?h2 ?q) = FULFILLED" "p_value (promises ?h2 ?q) = V"
    "latches ?h2 ?c = 0" "promises ?h2 ?ret = fresh_promise"
    using p1 by simp_all
  show ?thesis
    by (rule exI[of _ h1]) (use l p1 l1 f1 fu hs r in \<open>simp add: fresh_promise_def del: call_fn.simps\<close>)
qed

text \<open>The same on the store \<open>with_foreign\<close>, whose foreign object 0 has a callable \<^verbatim>\<open>then\<close>.\<close>

theorem listPromise_of_thenable_stays_pending_witness:
  "f_then (foreigns with_foreign 0) \<and> f_raises (foreigns with_foreign 0) = None \<and>
   \<not> isPromise with_foreign (VInt 1) \<and>
   (\<exists>h1. listPromise (call_fn 0 ex_env) with_foreign [VForeign 0]
            = Some (h1, Inr (next_promise with_foreign)) \<and>
      p_state (promises h1 (next_promise with_foreign)) = PENDING \<and>
      (\<exists>h2. call_fn (Suc (Suc (Suc 0))) ex_env h1 (Fulfill (Suc (next_promise with_foreign))) (VInt 1)
               = Some (h2, Inr VNone) \<and>
         p_state (promises h2 (Suc (next_promise with_foreign))) = FULFILLED \<and>
         p_value (promises h2 (Suc (next_promise with_foreign))) = VInt 1 \<and>
         latches h2 (next_latch with_foreign) = 0 \<and>
         promises h2 (next_promise with_foreign) = fresh_promise))"
proof -
  have s: "f_then (foreigns with_foreign 0)" "f_raises (foreigns with_foreign 0) = None"
    by (simp_all add: with_foreign_def)
  have d: "f_done (foreigns with_foreign 0) \<or> f_then (foreigns with_foreign 0)" using s by simp
  have np: "\<not> isPromise with_foreign (VInt 1)" by (simp add: isPromise_def)
  from listPromise_of_thenable_stays_pending[OF d s(2) np, of "call_fn 0 ex_env" 0 ex_env]
  have "\<exists>h1. listPromise (call_fn 0 ex_env) with_foreign [VForeign 0]
            = Some (h1, Inr (next_promise with_foreign)) \<and>
      p_state (promises h1 (next_promise with_foreign)) = PENDING \<and>
      (\<exists>h2. call_fn (Suc (Suc (Suc 0))) ex_env h1 (Fulfill (Suc (next_promise with_foreign))) (VInt 1)
               = Some (h2, Inr VNone) \<and>
         p_state (promises h2 (Suc (next_promise with_foreign))) = FULFILLED \<and>
         p_value (promises h2 (Suc (next_promise with_foreign))) = VInt 1 \<and>
         latches h2 (next_latch with_foreign) = 0 \<and>
         promises h2 (next_promise with_foreign) = fresh_promise)"
    by (elim exE conjE) (intro exI conjI; assumption)
  with s np show ?thesis by simp
qed

subsection \<open>Reactions registered before the settlement\<close>

text \<open>
  The last reaction \<open>c\<close> of a list settles the promise \<open>A\<close>, which no reaction of the
  store targets: the reactions before it leave \<open>A\<close> pending, so \<open>c\<close> does settle it.
\<close>

lemma last_reaction_fulfills:
  assumes w: "wf_heap T D h" and A: "A < next_promise h" "A \<notin> T" "p_state (promises h A) = PENDING"
    and old: "list_all (fn_ok T D) old" and v: "\<not> isPromise h W"
    and b: "(card T + 1) * (D + 2) + 2 \<le> n"
    and c: "\<And>h3 m h4. \<not> isPromise h3 W \<Longrightarrow>
              fulfill' (call_fn (Suc m) E) h3 A W = Some (h4, Inr VNone) \<Longrightarrow>
              \<exists>x. call_fn (Suc (Suc m)) E h3 c v = Some (h4, x)"
  shows "\<exists>h'. run_callbacks (call_fn n E) h (old @ [c]) v = Some (h', Inr VNone) \<and>
              p_state (promises h' A) = FULFILLED \<and> p_value (promises h' A) = W"
proof -
  have fin: "finite T" using w by (simp add: wf_heap_def)
  obtain m where n: "n = Suc (Suc m)" using b by (cases n; cases "n - 1") simp_all
  have b1: "(card T + 1) * (D + 2) + 1 \<le> n" using b by simp
  from run_callbacks_wf[OF w old budget_link[OF fin b1], of E v]
  obtain h3 where r3: "run_callbacks (call_fn n E) h old v = Some (h3, Inr VNone)"
    and w3: "wf_heap T D h3" and s3: "step T h h3" by blast
  have A3: "A < next_promise h3" "p_state (promises h3 A) = PENDING"
    using s3 A step_outside(1)[OF s3 A(1,2)] by (simp_all add: step_def)
  have v3: "\<not> isPromise h3 W" using v step_isPromise[OF s3] by simp
  let ?T = "insert A T"
  have wT: "wf_heap ?T D h3"
    using w3 A3(1) fin by (intro wf_mono[OF w3]) (auto simp: wf_heap_def)
  have cT: "card ?T * (D + 2) \<le> Suc m"
    using b n fin A(2) by simp
  from settle_fulfill[OF wT _ A3(2) v3 cT, of E]
  obtain h4 where r4: "fulfill' (call_fn (Suc m) E) h3 A W = Some (h4, Inr VNone)"
    and A4: "p_state (promises h4 A) = FULFILLED" "p_value (promises h4 A) = W" by auto
  from c[OF v3 r4] obtain x where "call_fn n E h3 c v = Some (h4, x)" unfolding n by blast
  with r3 have "run_callbacks (call_fn n E) h (old @ [c]) v = Some (h4, Inr VNone)"
    by (simp add: run_callbacks_append returns_def del: call_fn.simps)
  with A4 show ?thesis by blast
qed

lemma last_reaction_rejects:
  assumes w: "wf_heap T D h" and A: "A < next_promise h" "A \<notin> T" "p_state (promises h A) = PENDING"
    and old: "list_all (fn_ok T D) old"
    and b: "(card T + 1) * (D + 2) + 2 \<le> n"
    and c: "\<And>h3 m h4. reject (call_fn (Suc m) E) h3 A R = Some (h4, Inr VNone) \<Longrightarrow>
              \<exists>x. call_fn (Suc (Suc m)) E h3 c v = Some (h4, x)"
  shows "\<exists>h'. run_callbacks (call_fn n E) h (old @ [c]) v = Some (h', Inr VNone) \<and>
              p_state (promises h' A) = REJECTED \<and> p_reason (promises h' A) = R"
proof -
  have fin: "finite T" using w by (simp add: wf_heap_def)
  obtain m where n: "n = Suc (Suc m)" using b by (cases n; cases "n - 1") simp_all
  have b1: "(card T + 1) * (D + 2) + 1 \<le> n" using b by simp
  from run_callbacks_wf[OF w old budget_link[OF fin b1], of E v]
  obtain h3 where r3: "run_callbacks (call_fn n E) h old v = Some (h3, Inr VNone)"
    and w3: "wf_heap T D h3" and s3: "step T h h3" by blast
  have A3: "A < next_promise h3" "p_state (promises h3 A) = PENDING"
    using s3 A step_outside(1)[OF s3 A(1,2)] by (simp_all add: step_def)
  let ?T = "insert A T"
  have wT: "wf_heap ?T D h3"
    using w3 A3(1) fin by (intro wf_mono[OF w3]) (auto simp: wf_heap_def)
  have cT: "card ?T * (D + 2) \<le> Suc m"
    using b n fin A(2) by simp
  from settle_reject[OF wT _ A3(2) cT, of E R]
  obtain h4 where r4: "reject (call_fn (Suc m) E) h3 A R = Some (h4, Inr VNone)"
    and A4: "p_state (promises h4 A) = REJECTED" "p_reason (promises h4 A) = R" by auto
  from c[OF r4] obtain x where "call_fn n E h3 c v = Some (h4, x)" unfolding n by blast
  with r3 have "run_callbacks (call_fn n E) h (old @ [c]) v = Some (h4, Inr VNone)"
    by (simp add: run_callbacks_append returns_def del: call_fn.simps)
  with A4 show ?thesis by blast
qed

text \<open>
  A pending promise \<open>p\<close> whose last reaction \<open>c\<close> settles the untargeted promise \<open>A\<close>:
  settling \<open>p\<close> settles \<open>A\<close>.
\<close>

lemma source_fulfilled_last_fulfills:
  assumes w: "wf_heap T D h"
    and p: "p_state (promises h p) = PENDING" "list_all (fn_ok T D) cbs"
    and A: "A < next_promise h" "A \<notin> T" "p_state (promises h A) = PENDING" "A \<noteq> p"
    and v: "\<not> isPromise h v" "\<not> isPromise h W"
    and n: "(card T + 1) * (D + 2) + 2 \<le> n"
    and c: "\<And>h3 m h4. \<not> isPromise h3 W \<Longrightarrow>
              fulfill' (call_fn (Suc m) E) h3 A W = Some (h4, Inr VNone) \<Longrightarrow>
              \<exists>x. call_fn (Suc (Suc m)) E h3 c v = Some (h4, x)"
  shows "\<exists>h'. fulfill (call_fn n E)
                (upd_promise h p (\<lambda>q. q\<lparr>p_callbacks := Some (cbs @ [c]), p_errbacks := eb\<rparr>)) p v
              = Some (h', Inr VNone) \<and>
            p_state (promises h' A) = FULFILLED \<and> p_value (promises h' A) = W"
proof -
  let ?reg = "\<lambda>q. q\<lparr>p_callbacks := Some (cbs @ [c]), p_errbacks := eb\<rparr>"
  let ?g = "\<lambda>q. (?reg q)\<lparr>p_value := v, p_state := FULFILLED, p_callbacks := None\<rparr>"
  let ?h2 = "upd_promise h p ?g"
  have w2: "wf_heap T D ?h2"
    using v(1) by (intro wf_upd w) (simp_all add: lists_ok_def value_ok_def)
  have A2: "A < next_promise ?h2" "p_state (promises ?h2 A) = PENDING"
    using A by simp_all
  have W2: "\<not> isPromise ?h2 W" using v(2) by simp
  have "\<exists>h'. run_callbacks (call_fn n E) ?h2 (cbs @ [c]) v = Some (h', Inr VNone) \<and>
      p_state (promises h' A) = FULFILLED \<and> p_value (promises h' A) = W"
    by (rule last_reaction_fulfills[OF w2 A2(1) A(2) A2(2) p(2) W2 n]) (erule (1) c)
  then obtain h' where r: "run_callbacks (call_fn n E) ?h2 (cbs @ [c]) v = Some (h', Inr VNone)"
    and res: "p_state (promises h' A) = FULFILLED" "p_value (promises h' A) = W" by blast
  have "fulfill (call_fn n E) (upd_promise h p ?reg) p v = Some (h', Inr VNone)"
    using r v(1) not_isPromise_plain[OF v(1), of p] p(1)
    by (simp add: fulfill_def fulfill'_def upd_promise_twice del: call_fn.simps)
  with res show ?thesis by blast
qed



lemma source_rejected_last_rejects:
  assumes w: "wf_heap T D h"
    and p: "p_state (promises h p) = PENDING" "list_all (fn_ok T D) ebs"
    and A: "A < next_promise h" "A \<notin> T" "p_state (promises h A) = PENDING" "A \<noteq> p"
    and n: "(card T + 1) * (D + 2) + 2 \<le> n"
    and c: "\<And>h3 m h4. reject (call_fn (Suc m) E) h3 A R = Some (h4, Inr VNone) \<Longrightarrow>
              \<exists>x. call_fn (Suc (Suc m)) E h3 c r = Some (h4, x)"
  shows "\<exists>h'. reject (call_fn n E)
                (upd_promise h p (\<lambda>q. q\<lparr>p_callbacks := cb, p_errbacks := Some (ebs @ [c])\<rparr>)) p r
              = Some (h', Inr VNone) \<and>
            p_state (promises h' A) = REJECTED \<and> p_reason (promises h' A) = R"
proof -
  let ?reg = "\<lambda>q. q\<lparr>p_callbacks := cb, p_errbacks := Some (ebs @ [c])\<rparr>"
  let ?g = "\<lambda>q. (?reg q)\<lparr>p_reason := r, p_state := REJECTED, p_errbacks := None\<rparr>"
  let ?h2 = "upd_promise h p ?g"
  have w2: "wf_heap T D ?h2"
    by (intro wf_upd w) (simp_all add: lists_ok_def value_ok_def)
  have A2: "A < next_promise ?h2" "p_state (promises ?h2 A) = PENDING"
    using A by simp_all
  have "\<exists>h'. run_callbacks (call_fn n E) ?h2 (ebs @ [c]) r = Some (h', Inr VNone) \<and>
      p_state (promises h' A) = REJECTED \<and> p_reason (promises h' A) = R"
    by (rule last_reaction_rejects[OF w2 A2(1) A(2) A2(2) p(2) n]) (erule c)
  then obtain h' where run: "run_callbacks (call_fn n E) ?h2 (ebs @ [c]) r = Some (h', Inr VNone)"
    and res: "p_state (promises h' A) = REJECTED" "p_reason (promises h' A) = R" by blast
  have "reject (call_fn n E) (upd_promise h p ?reg) p r = Some (h', Inr VNone)"
    using run p(1)
    by (simp add: reject_def upd_promise_twice del: call_fn.simps)
  with res show ?thesis by blast
qed

text \<open>What the closures of \<^verbatim>\<open>then\<close> do to the promise they close over.\<close>

lemma caf_plain:
  assumes "\<not> isFunction s" "\<not> isPromise h3 W"
    "fulfill' (call_fn (Suc m) E) h3 A W = Some (h4, Inr VNone)"
  shows "\<exists>x. call_fn (Suc (Suc m)) E h3 (CallAndFulfill A s) W = Some (h4, x)"
  using assms not_isPromise_plain[OF assms(2), of A]
  by (cases s) (simp_all add: callAndFulfill_def fulfill_def try_except_def)

lemma car_plain:
  assumes "\<not> isFunction f" "reject (call_fn (Suc m) E) h3 A R = Some (h4, Inr VNone)"
  shows "\<exists>x. call_fn (Suc (Suc m)) E h3 (CallAndReject A f) R = Some (h4, x)"
  using assms
  by (cases f) (simp_all add: callAndReject_def try_except_def)





text \<open>
  \<^verbatim>\<open>then\<close> on a pending promise allocates the returned promise and appends one closure
  to each reaction list.
\<close>

lemma then_on_pending:
  assumes "p < next_promise h" "p_state (promises h p) = PENDING"
    "p_callbacks (promises h p) = Some cbs" "p_errbacks (promises h p) = Some ebs"
  shows "then' call h p s f =
           Some (upd_promise (fst (new_promise h)) p
                   (\<lambda>q. q\<lparr>p_callbacks := Some (cbs @ [CallAndFulfill (next_promise h) s]),
                            p_errbacks := Some (ebs @ [CallAndReject (next_promise h) f])\<rparr>),
                 Inr (next_promise h))"
proof -
  have ne: "p \<noteq> next_promise h" using assms(1) by simp
  show ?thesis
    using assms ne
    by (simp add: then'_def done'_def addCallback_def addErrback_def new_promise_def
        upd_promise_def bind_res_def returns_def fun_eq_iff)
qed

lemma then_without_handlers_pending:
  assumes w: "wf_heap T D h" and p: "p < next_promise h" "p_state (promises h p) = PENDING"
    and s: "\<not> isFunction s" "\<not> isFunction f" and m: "(card T + 1) * (D + 2) + 2 \<le> m"
  shows "\<exists>h1. then' call h p s f = Some (h1, Inr (next_promise h)) \<and>
           p_state (promises h1 (next_promise h)) = PENDING \<and>
           (\<forall>V. \<not> isPromise h V \<longrightarrow>
              (\<exists>h2. fulfill (call_fn m E) h1 p V = Some (h2, Inr VNone) \<and>
                    p_state (promises h2 (next_promise h)) = FULFILLED \<and>
                    p_value (promises h2 (next_promise h)) = V)) \<and>
           (\<forall>R. \<exists>h2. reject (call_fn m E) h1 p R = Some (h2, Inr VNone) \<and>
                    p_state (promises h2 (next_promise h)) = REJECTED \<and>
                    p_reason (promises h2 (next_promise h)) = R)"
proof -
  let ?A = "next_promise h"
  let ?h0 = "fst (new_promise h)"
  from wf_lists[OF w p(1)] p(2) obtain cbs ebs where
    l: "p_callbacks (promises h p) = Some cbs" "p_errbacks (promises h p) = Some ebs"
       "list_all (fn_ok T D) cbs" "list_all (fn_ok T D) ebs"
    by (auto simp: lists_ok_def)
  let ?h1 = "upd_promise ?h0 p
               (\<lambda>q. q\<lparr>p_callbacks := Some (cbs @ [CallAndFulfill ?A s]),
                        p_errbacks := Some (ebs @ [CallAndReject ?A f])\<rparr>)"
  have t: "then' call h p s f = Some (?h1, Inr ?A)"
    by (rule then_on_pending[OF p l(1,2)])
  have ne: "?A \<noteq> p" using p(1) by simp
  have w0: "wf_heap T D ?h0" by (rule wf_new_promise[OF w])
  have p0: "p_state (promises ?h0 p) = PENDING"
    using p ne by (simp add: new_promise_def)
  have A0: "?A < next_promise ?h0" "?A \<notin> T" "p_state (promises ?h0 ?A) = PENDING"
    using w by (auto simp: new_promise_def fresh_promise_def wf_heap_def)
  have flags: "isPromise ?h0 v = isPromise h v" for v
    by (rule isPromise_flags) (simp add: same_flags_def new_promise_def)
  have 1: "p_state (promises ?h1 ?A) = PENDING" using A0(3) ne by simp
  have 2: "\<exists>h2. fulfill (call_fn m E) ?h1 p V = Some (h2, Inr VNone) \<and>
                 p_state (promises h2 ?A) = FULFILLED \<and> p_value (promises h2 ?A) = V"
    if V: "\<not> isPromise h V" for V
  proof -
    have V0: "\<not> isPromise ?h0 V" using V flags by simp
    show ?thesis
      by (rule source_fulfilled_last_fulfills[OF w0 p0 l(3) A0 ne V0 V0 m])
         (erule (1) caf_plain[OF s(1)])
  qed
  have 3: "\<exists>h2. reject (call_fn m E) ?h1 p R = Some (h2, Inr VNone) \<and>
                 p_state (promises h2 ?A) = REJECTED \<and> p_reason (promises h2 ?A) = R" for R
    by (rule source_rejected_last_rejects[OF w0 p0 l(4) A0 ne m])
       (erule car_plain[OF s(2)])
  show ?thesis
    by (rule exI[of _ ?h1]) (use t 1 2 3 in blast)
qed


text \<open>
  C4: for a call \<^verbatim>\<open>p.then(s, f)\<close> where neither \<open>s\<close> nor \<open>f\<close> is callable, the call
  returns a new promise that ends up settled like \<open>p\<close>.  If \<open>p\<close> is already fulfilled
  with a value (respectively rejected with a reason), the new promise is fulfilled with
  the same value (respectively rejected with the same reason) when the call returns.  If
  \<open>p\<close> is still pending, in a well-formed store, the new promise is pending when the
  call returns, and a later \<^verbatim>\<open>p.fulfill(V)\<close> with a plain value \<open>V\<close> (respectively
  \<^verbatim>\<open>p.reject(R)\<close>) returns, given fuel for the reactions of the store, and leaves the
  new promise fulfilled with \<open>V\<close> (respectively rejected with \<open>R\<close>).  The value of a
  fulfilled promise is never a thenable in a well-formed store.
\<close>

theorem then_without_handlers_passes_through:
  assumes "p < next_promise h" and "\<not> isFunction s" and "\<not> isFunction f"
  shows "(p_state (promises h p) = FULFILLED \<and> \<not> isPromise h (p_value (promises h p)) \<longrightarrow>
           (\<exists>h'. then' (call_fn (Suc n) E) h p s f = Some (h', Inr (next_promise h)) \<and>
                 p_state (promises h' (next_promise h)) = FULFILLED \<and>
                 p_value (promises h' (next_promise h)) = p_value (promises h p))) \<and>
         (p_state (promises h p) = REJECTED \<longrightarrow>
           (\<exists>h'. then' (call_fn (Suc n) E) h p s f = Some (h', Inr (next_promise h)) \<and>
                 p_state (promises h' (next_promise h)) = REJECTED \<and>
                 p_reason (promises h' (next_promise h)) = p_reason (promises h p))) \<and>
         (p_state (promises h p) = PENDING \<and> wf_heap T D h \<and> (card T + 1) * (D + 2) + 2 \<le> m \<longrightarrow>
           (\<exists>h1. then' (call_fn (Suc n) E) h p s f = Some (h1, Inr (next_promise h)) \<and>
                 p_state (promises h1 (next_promise h)) = PENDING \<and>
                 (\<forall>V. \<not> isPromise h V \<longrightarrow>
                    (\<exists>h2. fulfill (call_fn m E) h1 p V = Some (h2, Inr VNone) \<and>
                          p_state (promises h2 (next_promise h)) = FULFILLED \<and>
                          p_value (promises h2 (next_promise h)) = V)) \<and>
                 (\<forall>R. \<exists>h2. reject (call_fn m E) h1 p R = Some (h2, Inr VNone) \<and>
                          p_state (promises h2 (next_promise h)) = REJECTED \<and>
                          p_reason (promises h2 (next_promise h)) = R)))"
proof -
  note s = then_without_handlers_settled[OF assms, of n E]
  have 3: "\<exists>h1. then' (call_fn (Suc n) E) h p s f = Some (h1, Inr (next_promise h)) \<and>
             p_state (promises h1 (next_promise h)) = PENDING \<and>
             (\<forall>V. \<not> isPromise h V \<longrightarrow>
                (\<exists>h2. fulfill (call_fn m E) h1 p V = Some (h2, Inr VNone) \<and>
                      p_state (promises h2 (next_promise h)) = FULFILLED \<and>
                      p_value (promises h2 (next_promise h)) = V)) \<and>
             (\<forall>R. \<exists>h2. reject (call_fn m E) h1 p R = Some (h2, Inr VNone) \<and>
                      p_state (promises h2 (next_promise h)) = REJECTED \<and>
                      p_reason (promises h2 (next_promise h)) = R)"
    if a: "p_state (promises h p) = PENDING \<and> wf_heap T D h \<and> (card T + 1) * (D + 2) + 2 \<le> m"
  proof -
    from a have w: "wf_heap T D h" and st: "p_state (promises h p) = PENDING"
      and m: "(card T + 1) * (D + 2) + 2 \<le> m" by simp_all
    show ?thesis by (rule then_without_handlers_pending[OF w assms(1) st assms(2,3) m])
  qed
  show ?thesis
    apply (intro conjI)
      apply (rule conjunct1[OF s])
     apply (rule conjunct2[OF s])
    apply (rule impI)
    apply (erule 3)
    done
qed

text \<open>
  The three cases on concrete stores: promise 0 fulfilled with \<open>VInt 1\<close>
  (\<open>fulfilled_and_pending\<close>), rejected with \<open>VInt 1\<close> (\<open>two_rejected\<close>), or pending
  (\<open>two_pending\<close>) and settled with \<open>VInt 9\<close> after the call.
\<close>

theorem then_without_handlers_passes_through_witness:
  "((0::nat) < next_promise fulfilled_and_pending \<and> \<not> isFunction VNone \<and>
    p_state (promises fulfilled_and_pending 0) = FULFILLED \<and>
    \<not> isPromise fulfilled_and_pending (p_value (promises fulfilled_and_pending 0)) \<and>
    (\<exists>h'. then' (call_fn (Suc 0) ex_env) fulfilled_and_pending 0 VNone VNone
             = Some (h', Inr (next_promise fulfilled_and_pending)) \<and>
          p_state (promises h' (next_promise fulfilled_and_pending)) = FULFILLED \<and>
          p_value (promises h' (next_promise fulfilled_and_pending)) = VInt 1)) \<and>
   ((0::nat) < next_promise two_rejected \<and>
    p_state (promises two_rejected 0) = REJECTED \<and>
    (\<exists>h'. then' (call_fn (Suc 0) ex_env) two_rejected 0 VNone VNone
             = Some (h', Inr (next_promise two_rejected)) \<and>
          p_state (promises h' (next_promise two_rejected)) = REJECTED \<and>
          p_reason (promises h' (next_promise two_rejected)) = VInt 1)) \<and>
   ((0::nat) < next_promise two_pending \<and> p_state (promises two_pending 0) = PENDING \<and>
    wf_heap {} 1 two_pending \<and> (card ({}::nat set) + 1) * (1 + 2) + 2 \<le> 5 \<and>
    \<not> isPromise two_pending (VInt 9) \<and>
    (\<exists>h1. then' (call_fn (Suc 0) ex_env) two_pending 0 VNone VNone
             = Some (h1, Inr (next_promise two_pending)) \<and>
          p_state (promises h1 (next_promise two_pending)) = PENDING \<and>
          (\<exists>h2. fulfill (call_fn 5 ex_env) h1 0 (VInt 9) = Some (h2, Inr VNone) \<and>
                p_state (promises h2 (next_promise two_pending)) = FULFILLED \<and>
                p_value (promises h2 (next_promise two_pending)) = VInt 9) \<and>
          (\<exists>h2. reject (call_fn 5 ex_env) h1 0 (VInt 9) = Some (h2, Inr VNone) \<and>
                p_state (promises h2 (next_promise two_pending)) = REJECTED \<and>
                p_reason (promises h2 (next_promise two_pending)) = VInt 9)))"
proof -
  have a: "(0::nat) < next_promise fulfilled_and_pending"
    "p_state (promises fulfilled_and_pending 0) = FULFILLED"
    "p_value (promises fulfilled_and_pending 0) = VInt 1"
    by (simp_all add: method_defs aux_defs example_defs)
  have b: "(0::nat) < next_promise two_rejected"
    "p_state (promises two_rejected 0) = REJECTED"
    "p_reason (promises two_rejected 0) = VInt 1"
    by (simp_all add: method_defs aux_defs example_defs)
  have c: "(0::nat) < next_promise two_pending" "p_state (promises two_pending 0) = PENDING"
    by (simp_all add: method_defs aux_defs example_defs)
  have k: "(card ({}::nat set) + 1) * (1 + 2) + 2 \<le> 5" by simp
  have nf: "\<not> isFunction VNone" by simp
  have np: "\<not> isPromise fulfilled_and_pending (VInt 1)" "\<not> isPromise two_pending (VInt 9)"
    by (simp_all add: isPromise_def)
  from then_without_handlers_passes_through[where n = 0 and E = ex_env and T = "{}" and D = 1
         and m = 5, OF a(1) nf nf] a np(1)
  have i1: "\<exists>h'. then' (call_fn (Suc 0) ex_env) fulfilled_and_pending 0 VNone VNone
             = Some (h', Inr (next_promise fulfilled_and_pending)) \<and>
          p_state (promises h' (next_promise fulfilled_and_pending)) = FULFILLED \<and>
          p_value (promises h' (next_promise fulfilled_and_pending)) = VInt 1"
    by simp
  from then_without_handlers_passes_through[where n = 0 and E = ex_env and T = "{}" and D = 1
         and m = 5, OF b(1) nf nf] b
  have i2: "\<exists>h'. then' (call_fn (Suc 0) ex_env) two_rejected 0 VNone VNone
             = Some (h', Inr (next_promise two_rejected)) \<and>
          p_state (promises h' (next_promise two_rejected)) = REJECTED \<and>
          p_reason (promises h' (next_promise two_rejected)) = VInt 1"
    by simp
  from then_without_handlers_passes_through[where n = 0 and E = ex_env and T = "{}" and D = 1
         and m = 5, OF c(1) nf nf] c(2) wf_examples(1) k np(2)
  have i3: "\<exists>h1. then' (call_fn (Suc 0) ex_env) two_pending 0 VNone VNone
             = Some (h1, Inr (next_promise two_pending)) \<and>
          p_state (promises h1 (next_promise two_pending)) = PENDING \<and>
          (\<exists>h2. fulfill (call_fn 5 ex_env) h1 0 (VInt 9) = Some (h2, Inr VNone) \<and>
                p_state (promises h2 (next_promise two_pending)) = FULFILLED \<and>
                p_value (promises h2 (next_promise two_pending)) = VInt 9) \<and>
          (\<exists>h2. reject (call_fn 5 ex_env) h1 0 (VInt 9) = Some (h2, Inr VNone) \<and>
                p_state (promises h2 (next_promise two_pending)) = REJECTED \<and>
                p_reason (promises h2 (next_promise two_pending)) = VInt 9)"
    by blast
  from i1 i2 i3 a b c k nf np wf_examples(1) show ?thesis by simp
qed

subsection \<open>Handlers of \<^verbatim>\<open>then\<close> that are arbitrary callables\<close>














end
